theory Spec2Isabelle
  imports Complex_Main "HOL-Library.Multiset"
begin

section \<open>The travelling-salesman notebook: data model\<close>

text \<open>
  The notebook keeps its data in Python lists and dictionaries:
  \<^item> \<open>sites\<close> is a list of labels (strings);
  \<^item> \<open>distances\<close> is a dictionary keyed by ordered pairs of labels;
  \<^item> \<open>x\<close> and \<open>u\<close> are dictionaries of solver variables, keyed like
    \<open>distances\<close> and like \<open>sites\<close>.
  A dictionary is a partial map here, a missing key is \<open>None\<close>.
\<close>

type_synonym site = string

type_synonym distances = "site \<times> site \<rightharpoonup> int"

text \<open>Python exceptions that the cells can raise.\<close>

datatype error = ValueError | KeyError

text \<open>
  The fake data of the notebook: one entry for every ordered pair of different sites,
  \<^verbatim>\<open>dict(((a,b), np.random.randint(10,50)) for a in sites for b in sites if a != b)\<close>.
  The random draws are the parameter \<open>rnd\<close>.
\<close>

definition make_distances :: "site list \<Rightarrow> (site \<times> site \<Rightarrow> int) \<Rightarrow> distances" where
  "make_distances sites rnd =
     (\<lambda>(a, b). if a \<in> set sites \<and> b \<in> set sites \<and> a \<noteq> b then Some (rnd (a, b)) else None)"

subsection \<open>Solver variables and linear expressions\<close>

datatype category = LpContinuous | LpInteger | LpBinary

record lp_variable =
  lowBound :: int
  upBound :: int
  cat :: category

text \<open>\<open>X i j\<close> is the variable \<open>x[(i,j)]\<close>, \<open>U i\<close> is \<open>u[i]\<close>.\<close>

datatype var = X site site | U site

text \<open>An affine expression: its terms (variable, coefficient) and its constant.\<close>

datatype affine = Affine "(var \<times> int) list" int

definition aff_var :: "var \<Rightarrow> affine" where
  "aff_var w = Affine [(w, 1)] 0"

definition aff_const :: "int \<Rightarrow> affine" where
  "aff_const c = Affine [] c"

fun aff_add :: "affine \<Rightarrow> affine \<Rightarrow> affine" where
  "aff_add (Affine ts c) (Affine ts' c') = Affine (ts @ ts') (c + c')"

fun aff_scale :: "int \<Rightarrow> affine \<Rightarrow> affine" where
  "aff_scale k (Affine ts c) = Affine (map (\<lambda>(w, a). (w, k * a)) ts) (k * c)"

definition aff_sub :: "affine \<Rightarrow> affine \<Rightarrow> affine" where
  "aff_sub a b = aff_add a (aff_scale (- 1) b)"

definition lpSum :: "affine list \<Rightarrow> affine" where
  "lpSum es = foldr aff_add es (aff_const 0)"

fun aff_vars :: "affine \<Rightarrow> var set" where
  "aff_vars (Affine ts c) = fst ` set ts"

datatype constraint = ConstraintEQ affine affine | ConstraintLE affine affine

fun constraint_vars :: "constraint \<Rightarrow> var set" where
  "constraint_vars (ConstraintEQ a b) = aff_vars a \<union> aff_vars b"
| "constraint_vars (ConstraintLE a b) = aff_vars a \<union> aff_vars b"

text \<open>
  Binary and integer variables take integer values, so an assignment gives every variable
  an \<open>int\<close>.
\<close>

type_synonym assignment = "var \<Rightarrow> int"

fun aff_eval :: "assignment \<Rightarrow> affine \<Rightarrow> int" where
  "aff_eval v (Affine ts c) = sum_list (map (\<lambda>(w, a). a * v w) ts) + c"

fun sat :: "assignment \<Rightarrow> constraint \<Rightarrow> bool" where
  "sat v (ConstraintEQ a b) = (aff_eval v a = aff_eval v b)"
| "sat v (ConstraintLE a b) = (aff_eval v a \<le> aff_eval v b)"

subsection \<open>Building the model\<close>

text \<open>\<^verbatim>\<open>x = LpVariable.dicts('x', distances, 0, 1, LpBinary)\<close>: one variable per key.\<close>

definition x_vars :: "distances \<Rightarrow> (site \<times> site \<rightharpoonup> lp_variable)" where
  "x_vars distances =
     (\<lambda>k. case distances k of None \<Rightarrow> None
          | Some _ \<Rightarrow> Some \<lparr>lowBound = 0, upBound = 1, cat = LpBinary\<rparr>)"

text \<open>\<^verbatim>\<open>u = LpVariable.dicts('u', sites, 0, len(sites)-1, LpInteger)\<close>.\<close>

definition u_vars :: "site list \<Rightarrow> (site \<rightharpoonup> lp_variable)" where
  "u_vars sites =
     (\<lambda>i. if i \<in> set sites
          then Some \<lparr>lowBound = 0, upBound = int (length sites) - 1, cat = LpInteger\<rparr>
          else None)"

text \<open>
  The objective \<^verbatim>\<open>lpSum([x[(i,j)]*distances[(i,j)] for (i,j) in distances])\<close>, as the
  coefficient it gives to each variable.
\<close>

definition cost :: "distances \<Rightarrow> var \<Rightarrow> int" where
  "cost distances w =
     (case w of X i j \<Rightarrow> (case distances (i, j) of None \<Rightarrow> 0 | Some c \<Rightarrow> c) | U i \<Rightarrow> 0)"

text \<open>
  The degree constraints, two for every \<open>k\<close> in \<open>sites\<close>:
  \<^verbatim>\<open>lpSum([x[(i,k)] for i in sites if (i,k) in x]) == 1\<close> and
  \<^verbatim>\<open>lpSum([x[(k,i)] for i in sites if (k,i) in x]) == 1\<close>.
\<close>

definition inbound :: "site list \<Rightarrow> (site \<times> site \<rightharpoonup> lp_variable) \<Rightarrow> site \<Rightarrow> constraint" where
  "inbound sites x k =
     ConstraintEQ (lpSum (map (\<lambda>i. aff_var (X i k)) (filter (\<lambda>i. x (i, k) \<noteq> None) sites)))
                  (aff_const 1)"

definition outbound :: "site list \<Rightarrow> (site \<times> site \<rightharpoonup> lp_variable) \<Rightarrow> site \<Rightarrow> constraint" where
  "outbound sites x k =
     ConstraintEQ (lpSum (map (\<lambda>i. aff_var (X k i)) (filter (\<lambda>i. x (k, i) \<noteq> None) sites)))
                  (aff_const 1)"

definition degree_constraints ::
  "site list \<Rightarrow> (site \<times> site \<rightharpoonup> lp_variable) \<Rightarrow> constraint list" where
  "degree_constraints sites x = concat (map (\<lambda>k. [inbound sites x k, outbound sites x k]) sites)"

text \<open>
  Subtour elimination, with \<open>N = len(sites)\<close>: for \<open>i\<close> and \<open>j\<close> in \<open>sites\<close> with
  \<^verbatim>\<open>i != j and (i != 'org' and j != 'org') and (i,j) in x\<close> the constraint
  \<^verbatim>\<open>u[i] - u[j] <= (N)*(1-x[(i,j)]) - 1\<close>.
\<close>

definition mtz :: "int \<Rightarrow> site \<Rightarrow> site \<Rightarrow> constraint" where
  "mtz N i j =
     ConstraintLE (aff_sub (aff_var (U i)) (aff_var (U j)))
                  (aff_sub (aff_scale N (aff_sub (aff_const 1) (aff_var (X i j)))) (aff_const 1))"

definition subtour_constraints ::
  "site list \<Rightarrow> (site \<times> site \<rightharpoonup> lp_variable) \<Rightarrow> constraint list" where
  "subtour_constraints sites x =
     (let N = int (length sites) in
      concat (map (\<lambda>i. concat (map (\<lambda>j.
        if i \<noteq> j \<and> (i \<noteq> ''org'' \<and> j \<noteq> ''org'') \<and> x (i, j) \<noteq> None then [mtz N i j] else [])
        sites)) sites))"

record model =
  model_objective :: "var \<Rightarrow> int"
  model_x :: "site \<times> site \<rightharpoonup> lp_variable"
  model_u :: "site \<rightharpoonup> lp_variable"
  model_constraints :: "constraint list"

definition build_model :: "site list \<Rightarrow> distances \<Rightarrow> model" where
  "build_model sites distances =
     (let x = x_vars distances in
      \<lparr>model_objective = cost distances,
       model_x = x,
       model_u = u_vars sites,
       model_constraints = degree_constraints sites x @ subtour_constraints sites x\<rparr>)"

subsection \<open>Feasible assignments\<close>

definition within_bounds :: "lp_variable option \<Rightarrow> int \<Rightarrow> bool" where
  "within_bounds lv a = (case lv of None \<Rightarrow> True | Some b \<Rightarrow> lowBound b \<le> a \<and> a \<le> upBound b)"

text \<open>
  The bounds of the edge variables between listed sites: every constraint is over these
  and the \<open>u\<close> variables only.
\<close>

definition x_bounds :: "site list \<Rightarrow> model \<Rightarrow> assignment \<Rightarrow> bool" where
  "x_bounds sites m v =
     (\<forall>i\<in>set sites. \<forall>j\<in>set sites. within_bounds (model_x m (i, j)) (v (X i j)))"

definition u_bounds :: "site list \<Rightarrow> model \<Rightarrow> assignment \<Rightarrow> bool" where
  "u_bounds sites m v = (\<forall>i\<in>set sites. within_bounds (model_u m i) (v (U i)))"

definition degree_feasible :: "site list \<Rightarrow> distances \<Rightarrow> assignment \<Rightarrow> bool" where
  "degree_feasible sites distances v =
     (let m = build_model sites distances in
      x_bounds sites m v \<and> (\<forall>c\<in>set (degree_constraints sites (model_x m)). sat v c))"

definition feasible :: "site list \<Rightarrow> distances \<Rightarrow> assignment \<Rightarrow> bool" where
  "feasible sites distances v =
     (let m = build_model sites distances in
      x_bounds sites m v \<and> u_bounds sites m v \<and> (\<forall>c\<in>set (model_constraints m). sat v c))"

text \<open>A distance for every ordered pair of different listed sites, none for a pair \<open>(i,i)\<close>.\<close>

definition complete_matrix :: "site list \<Rightarrow> distances \<Rightarrow> bool" where
  "complete_matrix sites distances =
     (\<forall>i\<in>set sites. \<forall>j\<in>set sites. (distances (i, j) \<noteq> None) = (i \<noteq> j))"

subsection \<open>Tours\<close>

text \<open>
  A Hamiltonian cycle through the origin, as the list of its sites from \<open>'org'\<close> on; its
  edges join every site to the next one and the last site to the first.
\<close>

definition is_tour :: "site list \<Rightarrow> site list \<Rightarrow> bool" where
  "is_tour sites t = (t \<noteq> [] \<and> hd t = ''org'' \<and> distinct t \<and> set t = set sites)"

definition cycle_edges :: "site list \<Rightarrow> (site \<times> site) list" where
  "cycle_edges t = zip t (rotate1 t)"

definition encodes :: "site list \<Rightarrow> assignment \<Rightarrow> (site \<times> site) set \<Rightarrow> bool" where
  "encodes sites v E =
     (\<forall>i\<in>set sites. \<forall>j\<in>set sites. i \<noteq> j \<longrightarrow> v (X i j) = (if (i, j) \<in> E then 1 else 0))"

text \<open>A subtour: a cycle of selected edges through some of the sites only.\<close>

definition subtour :: "site list \<Rightarrow> assignment \<Rightarrow> site list \<Rightarrow> bool" where
  "subtour sites v c =
     (2 \<le> length c \<and> distinct c \<and> set c \<subset> set sites \<and>
      (\<forall>(i, j)\<in>set (cycle_edges c). v (X i j) = 1))"

fun index_of :: "'a list \<Rightarrow> 'a \<Rightarrow> nat" where
  "index_of [] a = 0"
| "index_of (b # bs) a = (if b = a then 0 else Suc (index_of bs a))"

text \<open>
  The assignment of a tour: 1 on its edges, 0 on the others, and the rank of every site
  in the tour as its \<open>u\<close>.
\<close>

definition tour_assignment :: "site list \<Rightarrow> assignment" where
  "tour_assignment t =
     (\<lambda>w. case w of X i j \<Rightarrow> (if (i, j) \<in> set (cycle_edges t) then 1 else 0)
               | U i \<Rightarrow> int (index_of t i))"

text \<open>An assignment with its \<open>u\<close> values replaced.\<close>

definition with_order :: "assignment \<Rightarrow> (site \<Rightarrow> int) \<Rightarrow> assignment" where
  "with_order v u = (\<lambda>w. case w of X i j \<Rightarrow> v (X i j) | U i \<Rightarrow> u i)"

section \<open>Decoding the tour\<close>

text \<open>
  After the solve, \<open>x[(i,j)].varValue\<close> is a float. Every float is a rational number and
  \<open>== 1\<close> compares exactly, so the values are a map into \<open>rat\<close>; a key that \<open>x\<close> does
  not have is \<open>None\<close>.
\<close>

type_synonym var_values = "site \<times> site \<rightharpoonup> rat"

text \<open>\<open>xs.pop(xs.index(a))\<close>: \<open>index\<close> raises \<open>ValueError\<close> when \<open>a\<close> is not in \<open>xs\<close>.\<close>

fun py_index :: "'a list \<Rightarrow> 'a \<Rightarrow> error + nat" where
  "py_index [] a = Inl ValueError"
| "py_index (b # bs) a =
     (if b = a then Inr 0
      else (case py_index bs a of Inl e \<Rightarrow> Inl e | Inr n \<Rightarrow> Inr (Suc n)))"

definition pop_index :: "'a list \<Rightarrow> 'a \<Rightarrow> error + ('a \<times> 'a list)" where
  "pop_index xs a =
     (case py_index xs a of Inl e \<Rightarrow> Inl e
      | Inr i \<Rightarrow> Inr (xs ! i, take i xs @ drop (Suc i) xs))"

text \<open>
  The inner loop \<^verbatim>\<open>for k in sites_left: if x[(org,k)].varValue == 1: ... break\<close>:
  the first \<open>k\<close> whose value is 1, \<open>None\<close> when the loop ends without a \<open>break\<close>,
  \<open>KeyError\<close> when it reads a key that \<open>x\<close> does not have.
\<close>

fun find_next :: "var_values \<Rightarrow> site \<Rightarrow> site list \<Rightarrow> error + site option" where
  "find_next x org [] = Inr None"
| "find_next x org (k # ks) =
     (case x (org, k) of None \<Rightarrow> Inl KeyError
      | Some a \<Rightarrow> if a = 1 then Inr (Some k) else find_next x org ks)"

text \<open>
  One pass of the body of \<^verbatim>\<open>while len(sites_left) > 0\<close> on the state
  \<open>(org, sites_left, tour)\<close>.
\<close>

type_synonym decoder_state = "site \<times> site list \<times> site list"

fun decode_step :: "var_values \<Rightarrow> decoder_state \<Rightarrow> error + decoder_state" where
  "decode_step x (org, sites_left, tour) =
     (case find_next x org sites_left of
        Inl e \<Rightarrow> Inl e
      | Inr None \<Rightarrow> Inr (org, sites_left, tour)
      | Inr (Some k) \<Rightarrow>
          (case pop_index sites_left k of Inl e \<Rightarrow> Inl e
           | Inr (k', left') \<Rightarrow> Inr (k, left', tour @ [k'])))"

text \<open>
  The while loop. Nothing bounds the number of its passes, so the model counts them:
  \<open>None\<close> is a loop still running after \<open>fuel\<close> passes.
\<close>

fun decode_loop :: "nat \<Rightarrow> var_values \<Rightarrow> decoder_state \<Rightarrow> (error + site list) option" where
  "decode_loop fuel x (org, sites_left, tour) =
     (if sites_left = [] then Some (Inr tour)
      else (case fuel of 0 \<Rightarrow> None
            | Suc f \<Rightarrow> (case decode_step x (org, sites_left, tour) of
                          Inl e \<Rightarrow> Some (Inl e)
                        | Inr s \<Rightarrow> decode_loop f x s)))"

text \<open>
  The cell from \<^verbatim>\<open>sites_left = sites.copy()\<close> to \<^verbatim>\<open>tour.append('org')\<close>. The cell
  sets \<^verbatim>\<open>org = 'org'\<close>; \<open>reconstruct_from\<close> takes that first value of \<open>org\<close> as
  \<open>start\<close>.
\<close>

definition initial_state :: "site \<Rightarrow> site list \<Rightarrow> error + decoder_state" where
  "initial_state start sites =
     (case pop_index sites start of Inl e \<Rightarrow> Inl e
      | Inr (s, left) \<Rightarrow> Inr (start, left, [s]))"

definition reconstruct_from ::
  "site \<Rightarrow> nat \<Rightarrow> site list \<Rightarrow> var_values \<Rightarrow> (error + site list) option" where
  "reconstruct_from start fuel sites x =
     (case initial_state start sites of Inl e \<Rightarrow> Some (Inl e)
      | Inr s0 \<Rightarrow>
          (case decode_loop fuel x s0 of None \<Rightarrow> None
           | Some (Inl e) \<Rightarrow> Some (Inl e)
           | Some (Inr tour) \<Rightarrow> Some (Inr (tour @ [''org'']))))"

definition reconstruct :: "nat \<Rightarrow> site list \<Rightarrow> var_values \<Rightarrow> (error + site list) option" where
  "reconstruct = reconstruct_from ''org''"

text \<open>
  \<^verbatim>\<open>tour_legs = [distances[(tour[i-1], tour[i])] for i in range(1,len(tour))]\<close>.
\<close>

fun tour_legs :: "distances \<Rightarrow> site list \<Rightarrow> error + int list" where
  "tour_legs distances (a # b # rest) =
     (case distances (a, b) of None \<Rightarrow> Inl KeyError
      | Some c \<Rightarrow> (case tour_legs distances (b # rest) of Inl e \<Rightarrow> Inl e
                   | Inr cs \<Rightarrow> Inr (c # cs)))"
| "tour_legs distances [a] = Inr []"
| "tour_legs distances [] = Inr []"

text \<open>The tour and \<^verbatim>\<open>sum(tour_legs)\<close>.\<close>

definition decode ::
  "nat \<Rightarrow> site list \<Rightarrow> var_values \<Rightarrow> distances \<Rightarrow> (error + site list \<times> int) option" where
  "decode fuel sites x distances =
     (case reconstruct fuel sites x of None \<Rightarrow> None
      | Some (Inl e) \<Rightarrow> Some (Inl e)
      | Some (Inr tour) \<Rightarrow>
          (case tour_legs distances tour of Inl e \<Rightarrow> Some (Inl e)
           | Inr legs \<Rightarrow> Some (Inr (tour, sum_list legs))))"

text \<open>
  The values the solver reports for an integer assignment: the value of \<open>x[(i,j)]\<close> for
  every key of \<open>x\<close>.
\<close>

definition var_values_of :: "distances \<Rightarrow> assignment \<Rightarrow> var_values" where
  "var_values_of distances v =
     (\<lambda>(i, j). case distances (i, j) of None \<Rightarrow> None | Some _ \<Rightarrow> Some (of_int (v (X i j))))"

text \<open>
  The states of the while loop: \<open>loop_reaches x s s'\<close> when some number of passes takes
  the loop from \<open>s\<close> to \<open>s'\<close>.
\<close>

inductive loop_reaches :: "var_values \<Rightarrow> decoder_state \<Rightarrow> decoder_state \<Rightarrow> bool" for x s where
  reaches_start: "loop_reaches x s s"
| reaches_pass: "loop_reaches x s (org, sites_left, tour) \<Longrightarrow> sites_left \<noteq> [] \<Longrightarrow>
     decode_step x (org, sites_left, tour) = Inr s' \<Longrightarrow> loop_reaches x s s'"

section \<open>Example data\<close>

definition sites3 :: "site list" where
  "sites3 = [''org'', ''A'', ''B'']"

definition dist3 :: distances where
  "dist3 = make_distances sites3 (\<lambda>_. 10)"

definition values3 :: var_values where
  "values3 = var_values_of dist3 (tour_assignment [''org'', ''A'', ''B''])"

definition noisy3 :: var_values where
  "noisy3 = values3((''org'', ''A'') \<mapsto> 1 - 1 / 2 ^ 24)"

definition ones3 :: var_values where
  "ones3 = var_values_of dist3 (\<lambda>w. 1)"

definition dist3_gap :: distances where
  "dist3_gap = dist3((''A'', ''B'') := None)"

definition sites2 :: "site list" where
  "sites2 = [''org'', ''A'']"

definition dist2 :: distances where
  "dist2 = make_distances sites2 (\<lambda>_. 10)"

definition sites_abc :: "site list" where
  "sites_abc = [''A'', ''B'', ''C'']"

definition dist_abc :: distances where
  "dist_abc = make_distances sites_abc (\<lambda>_. 10)"

definition sites4 :: "site list" where
  "sites4 = [''org'', ''A'', ''B'', ''C'']"

definition dist4 :: distances where
  "dist4 = make_distances sites4 (\<lambda>_. 10)"

section \<open>Edge sets\<close>

text \<open>
  The edges an assignment selects between listed sites; an edge set in which every site
  has one edge in and one edge out; and an ordering that grows by one along every edge
  between sites other than the origin.
\<close>

definition selected :: "site list \<Rightarrow> assignment \<Rightarrow> (site \<times> site) set" where
  "selected sites v = {(i, j). i \<in> set sites \<and> j \<in> set sites \<and> i \<noteq> j \<and> v (X i j) = 1}"

definition perm_edges :: "site set \<Rightarrow> (site \<times> site) set \<Rightarrow> bool" where
  "perm_edges S E =
     ((\<forall>(i, j)\<in>E. i \<in> S \<and> j \<in> S \<and> i \<noteq> j) \<and>
      (\<forall>k\<in>S. \<exists>!i. (i, k) \<in> E) \<and> (\<forall>k\<in>S. \<exists>!j. (k, j) \<in> E))"

definition ranked :: "site set \<Rightarrow> (site \<times> site) set \<Rightarrow> (site \<Rightarrow> int) \<Rightarrow> int \<Rightarrow> bool" where
  "ranked S E u M =
     ((\<forall>i j. (i, j) \<in> E \<longrightarrow> i \<noteq> ''org'' \<longrightarrow> j \<noteq> ''org'' \<longrightarrow> u i + 1 \<le> u j) \<and>
      (\<forall>i\<in>S. u i \<le> M))"

section \<open>The model: auxiliary facts\<close>

lemmas example_defs = sites3_def dist3_def values3_def noisy3_def ones3_def
  make_distances_def var_values_of_def tour_assignment_def cycle_edges_def

lemma aff_eval_var [simp]: "aff_eval v (aff_var w) = v w"
  by (simp add: aff_var_def)

lemma aff_eval_const [simp]: "aff_eval v (aff_const c) = c"
  by (simp add: aff_const_def)

lemma aff_eval_add [simp]: "aff_eval v (aff_add a b) = aff_eval v a + aff_eval v b"
  by (cases a; cases b) simp

lemma aff_eval_scale [simp]: "aff_eval v (aff_scale k a) = k * aff_eval v a"
proof (cases a)
  case (Affine ts c)
  have "sum_list (map ((\<lambda>(w, a). a * v w) \<circ> (\<lambda>(w, a). (w, k * a))) ts) =
        k * sum_list (map (\<lambda>(w, a). a * v w) ts)"
    by (induction ts) (auto simp: algebra_simps)
  with Affine show ?thesis by (simp add: algebra_simps)
qed

lemma aff_eval_sub [simp]: "aff_eval v (aff_sub a b) = aff_eval v a - aff_eval v b"
  by (simp add: aff_sub_def)

lemma aff_eval_lpSum [simp]: "aff_eval v (lpSum es) = sum_list (map (aff_eval v) es)"
  by (induction es) (simp_all add: lpSum_def)

lemma sat_mtz: "sat v (mtz N i j) \<longleftrightarrow> v (U i) - v (U j) \<le> N * (1 - v (X i j)) - 1"
  by (simp add: mtz_def)

lemma sat_inbound:
  "sat v (inbound sites x k) \<longleftrightarrow>
     sum_list (map (\<lambda>i. v (X i k)) (filter (\<lambda>i. x (i, k) \<noteq> None) sites)) = 1"
  by (simp add: inbound_def comp_def)

lemma sat_outbound:
  "sat v (outbound sites x k) \<longleftrightarrow>
     sum_list (map (\<lambda>i. v (X k i)) (filter (\<lambda>i. x (k, i) \<noteq> None) sites)) = 1"
  by (simp add: outbound_def comp_def)

lemma aff_vars_var [simp]: "aff_vars (aff_var w) = {w}"
  by (simp add: aff_var_def)

lemma aff_vars_const [simp]: "aff_vars (aff_const c) = {}"
  by (simp add: aff_const_def)

lemma aff_vars_add [simp]: "aff_vars (aff_add a b) = aff_vars a \<union> aff_vars b"
  by (cases a; cases b) (simp add: image_Un)

lemma aff_vars_scale [simp]: "aff_vars (aff_scale k a) = aff_vars a"
  by (cases a) (force simp: image_iff)

lemma aff_vars_sub [simp]: "aff_vars (aff_sub a b) = aff_vars a \<union> aff_vars b"
  by (simp add: aff_sub_def)

lemma aff_vars_lpSum [simp]: "aff_vars (lpSum es) = (\<Union>e\<in>set es. aff_vars e)"
  by (induction es) (simp_all add: lpSum_def)

lemma constraint_vars_mtz: "constraint_vars (mtz N i j) = {U i, U j, X i j}"
  by (auto simp: mtz_def)

lemma x_vars_None: "x_vars d k = None \<longleftrightarrow> d k = None"
  by (simp add: x_vars_def split: option.splits)

lemma x_vars_Some:
  "d k \<noteq> None \<Longrightarrow> x_vars d k = Some \<lparr>lowBound = 0, upBound = 1, cat = LpBinary\<rparr>"
  by (auto simp: x_vars_def)

lemma mtz_inject: "mtz N i j = mtz N' i' j' \<Longrightarrow> i = i' \<and> j = j'"
  by (simp add: mtz_def aff_sub_def aff_var_def aff_const_def)

lemma concat_if_filter:
  "concat (map (\<lambda>j. if P j then [f j] else []) ys) = map f (filter P ys)"
  by (induction ys) simp_all

lemma subtour_constraints_eq:
  "subtour_constraints sites x =
     map (\<lambda>(i, j). mtz (int (length sites)) i j)
       (filter (\<lambda>(i, j). i \<noteq> j \<and> i \<noteq> ''org'' \<and> j \<noteq> ''org'' \<and> x (i, j) \<noteq> None)
          (List.product sites sites))"
proof -
  have "concat (map (\<lambda>i. concat (map (\<lambda>j. if P i j then [f i j] else []) ys)) xs) =
        map (\<lambda>(i, j). f i j) (filter (\<lambda>(i, j). P i j) (List.product xs ys))"
    for P :: "site \<Rightarrow> site \<Rightarrow> bool" and f :: "site \<Rightarrow> site \<Rightarrow> constraint" and xs ys
    by (induction xs) (simp_all add: concat_if_filter filter_map comp_def)
  then show ?thesis by (simp add: subtour_constraints_def Let_def)
qed

lemma set_subtour_constraints:
  "set (subtour_constraints sites x) =
     {mtz (int (length sites)) i j | i j.
        i \<in> set sites \<and> j \<in> set sites \<and> i \<noteq> j \<and> i \<noteq> ''org'' \<and> j \<noteq> ''org'' \<and> x (i, j) \<noteq> None}"
  by (auto simp: subtour_constraints_eq)

lemma distinct_subtour_constraints:
  "distinct sites \<Longrightarrow> distinct (subtour_constraints sites x)"
proof -
  assume "distinct sites"
  then have d: "distinct (filter (\<lambda>(i, j). i \<noteq> j \<and> i \<noteq> ''org'' \<and> j \<noteq> ''org'' \<and> x (i, j) \<noteq> None)
      (List.product sites sites))"
    by (simp add: distinct_product)
  have "inj_on (\<lambda>(i, j). mtz (int (length sites)) i j) A" for A
    by (auto simp: inj_on_def dest: mtz_inject)
  with d show ?thesis
    by (simp add: subtour_constraints_eq distinct_map)
qed

lemma model_x_build [simp]: "model_x (build_model sites d) = x_vars d"
  by (simp add: build_model_def Let_def)

lemma model_u_build [simp]: "model_u (build_model sites d) = u_vars sites"
  by (simp add: build_model_def Let_def)

lemma model_constraints_build:
  "model_constraints (build_model sites d) =
     degree_constraints sites (x_vars d) @ subtour_constraints sites (x_vars d)"
  by (simp add: build_model_def Let_def)

lemma complete_matrix_make: "complete_matrix sites (make_distances sites rnd)"
  by (simp add: complete_matrix_def make_distances_def)

lemma filter_present_in:
  "complete_matrix sites d \<Longrightarrow> k \<in> set sites \<Longrightarrow>
     filter (\<lambda>i. x_vars d (i, k) \<noteq> None) sites = filter (\<lambda>i. i \<noteq> k) sites"
  by (rule filter_cong) (auto simp: complete_matrix_def x_vars_None)

lemma filter_present_out:
  "complete_matrix sites d \<Longrightarrow> k \<in> set sites \<Longrightarrow>
     filter (\<lambda>i. x_vars d (k, i) \<noteq> None) sites = filter (\<lambda>i. i \<noteq> k) sites"
  by (rule filter_cong) (auto simp: complete_matrix_def x_vars_None)

lemma length_degree_constraints: "length (degree_constraints sites x) = 2 * length sites"
proof -
  have "length (concat (map (\<lambda>k. [f k, g k]) xs)) = 2 * length xs"
    for f g :: "site \<Rightarrow> constraint" and xs
    by (induction xs) simp_all
  then show ?thesis by (simp add: degree_constraints_def)
qed

lemma set_degree_constraints:
  "set (degree_constraints sites x) = (\<Union>k\<in>set sites. {inbound sites x k, outbound sites x k})"
  by (auto simp: degree_constraints_def)

lemmas model_defs = feasible_def degree_feasible_def x_bounds_def u_bounds_def within_bounds_def
  model_constraints_build model_x_build model_u_build degree_constraints_def
  subtour_constraints_def inbound_def outbound_def x_vars_def u_vars_def Let_def
  sat_mtz

lemma constraint_vars_inbound:
  "constraint_vars (inbound sites x k) = {X i k | i. i \<in> set sites \<and> x (i, k) \<noteq> None}"
  by (auto simp: inbound_def)

lemma constraint_vars_outbound:
  "constraint_vars (outbound sites x k) = {X k i | i. i \<in> set sites \<and> x (k, i) \<noteq> None}"
  by (auto simp: outbound_def)

lemma model_constraint_vars:
  assumes "c \<in> set (model_constraints (build_model sites d))" and "X i j \<in> constraint_vars c"
  shows "d (i, j) \<noteq> None"
proof -
  from assms(1) consider k where "c = inbound sites (x_vars d) k"
    | k where "c = outbound sites (x_vars d) k"
    | a b where "c = mtz (int (length sites)) a b" "x_vars d (a, b) \<noteq> None"
    by (auto simp: model_constraints_build set_degree_constraints set_subtour_constraints)
  then show ?thesis
  proof cases
    case 1
    with assms(2) show ?thesis by (auto simp: constraint_vars_inbound x_vars_None)
  next
    case 2
    with assms(2) show ?thesis by (auto simp: constraint_vars_outbound x_vars_None)
  next
    case 3
    with assms(2) show ?thesis by (auto simp: constraint_vars_mtz x_vars_None)
  qed
qed

lemma mtz_in_model:
  "mtz (int (length sites)) i j \<in> set (model_constraints (build_model sites d)) \<longleftrightarrow>
     i \<in> set sites \<and> j \<in> set sites \<and> i \<noteq> j \<and> i \<noteq> ''org'' \<and> j \<noteq> ''org'' \<and> d (i, j) \<noteq> None"
proof -
  have "mtz N i j \<notin> set (degree_constraints sites x)" for N x
    by (auto simp: set_degree_constraints mtz_def inbound_def outbound_def)
  moreover have "mtz (int (length sites)) i j \<in> set (subtour_constraints sites (x_vars d)) \<longleftrightarrow>
     i \<in> set sites \<and> j \<in> set sites \<and> i \<noteq> j \<and> i \<noteq> ''org'' \<and> j \<noteq> ''org'' \<and> d (i, j) \<noteq> None"
    by (auto simp: set_subtour_constraints x_vars_None dest: mtz_inject)
  ultimately show ?thesis by (simp add: model_constraints_build del: not_None_eq)
qed

lemma subtour_empty_small:
  assumes "distinct sites" and "''org'' \<in> set sites" and "length sites < 3"
  shows "subtour_constraints sites x = []"
proof (rule ccontr)
  assume "subtour_constraints sites x \<noteq> []"
  then have "set (subtour_constraints sites x) \<noteq> {}" by simp
  then obtain i j where ij: "i \<in> set sites" "j \<in> set sites" "i \<noteq> j" "i \<noteq> ''org''" "j \<noteq> ''org''"
    unfolding set_subtour_constraints by blast
  with assms(2) have "{''org'', i, j} \<subseteq> set sites" by simp
  then have "card {''org'', i, j} \<le> card (set sites)" by (simp add: card_mono)
  moreover have "card {''org'', i, j} = 3" using ij(3,4,5) by auto
  moreover have "card (set sites) = length sites" using assms(1) by (simp add: distinct_card)
  ultimately show False using assms(3) by simp
qed

section \<open>The model: properties\<close>

text \<open>
  C2. For a complete distance matrix the subtour-elimination loop adds exactly the
  constraints \<open>u[i] - u[j] \<le> N*(1 - x[i,j]) - 1\<close> for the ordered pairs \<open>(i,j)\<close> of
  different sites other than \<open>'org'\<close>, each once when the sites are distinct. Every
  \<open>u[i]\<close> is an integer variable with bounds 0 and \<open>N-1\<close>. No such constraint mentions
  a variable of \<open>'org'\<close>. With \<open>x[i,j] = 1\<close> the constraint says \<open>u[i] - u[j] \<le> -1\<close>, with
  \<open>x[i,j] = 0\<close> it says \<open>u[i] - u[j] \<le> N-1\<close>, which holds for all values within the
  bounds.
\<close>

theorem subtour_constraints_mtz:
  assumes "complete_matrix sites distances"
  shows "set (subtour_constraints sites (model_x (build_model sites distances))) =
           {mtz (int (length sites)) i j | i j.
              i \<in> set sites \<and> j \<in> set sites \<and> i \<noteq> j \<and> i \<noteq> ''org'' \<and> j \<noteq> ''org''} \<and>
         (distinct sites \<longrightarrow>
            distinct (subtour_constraints sites (model_x (build_model sites distances)))) \<and>
         (\<forall>i\<in>set sites. model_u (build_model sites distances) i =
            Some \<lparr>lowBound = 0, upBound = int (length sites) - 1, cat = LpInteger\<rparr>) \<and>
         (\<forall>c\<in>set (subtour_constraints sites (model_x (build_model sites distances))). \<forall>k.
            U ''org'' \<notin> constraint_vars c \<and> X ''org'' k \<notin> constraint_vars c \<and>
            X k ''org'' \<notin> constraint_vars c) \<and>
         (sat v (mtz N i j) \<longleftrightarrow> v (U i) - v (U j) \<le> N * (1 - v (X i j)) - 1) \<and>
         (v (X i j) = 1 \<longrightarrow> (sat v (mtz N i j) \<longleftrightarrow> v (U i) - v (U j) \<le> - 1)) \<and>
         (v (X i j) = 0 \<longrightarrow> (sat v (mtz N i j) \<longleftrightarrow> v (U i) - v (U j) \<le> N - 1)) \<and>
         (v (X i j) = 0 \<and> 0 \<le> v (U i) \<and> v (U i) \<le> N - 1 \<and> 0 \<le> v (U j) \<and> v (U j) \<le> N - 1
            \<longrightarrow> sat v (mtz N i j))"
proof -
  have 1: "set (subtour_constraints sites (model_x (build_model sites distances))) =
           {mtz (int (length sites)) i j | i j.
              i \<in> set sites \<and> j \<in> set sites \<and> i \<noteq> j \<and> i \<noteq> ''org'' \<and> j \<noteq> ''org''}"
  proof -
    have "(i \<in> set sites \<and> j \<in> set sites \<and> i \<noteq> j \<and> i \<noteq> ''org'' \<and> j \<noteq> ''org'' \<and>
           x_vars distances (i, j) \<noteq> None) =
          (i \<in> set sites \<and> j \<in> set sites \<and> i \<noteq> j \<and> i \<noteq> ''org'' \<and> j \<noteq> ''org'')" for i j
      using assms by (auto simp: complete_matrix_def x_vars_None)
    then show ?thesis
      by (simp only: set_subtour_constraints model_x_build)
  qed
  have 2: "distinct sites \<longrightarrow>
            distinct (subtour_constraints sites (model_x (build_model sites distances)))"
    by (simp add: distinct_subtour_constraints)
  have 3: "\<forall>i\<in>set sites. model_u (build_model sites distances) i =
            Some \<lparr>lowBound = 0, upBound = int (length sites) - 1, cat = LpInteger\<rparr>"
    by (simp add: u_vars_def)
  have 4: "\<forall>c\<in>set (subtour_constraints sites (model_x (build_model sites distances))). \<forall>k.
            U ''org'' \<notin> constraint_vars c \<and> X ''org'' k \<notin> constraint_vars c \<and>
            X k ''org'' \<notin> constraint_vars c"
    by (auto simp: set_subtour_constraints constraint_vars_mtz)
  have 5: "sat v (mtz N i j) \<longleftrightarrow> v (U i) - v (U j) \<le> N * (1 - v (X i j)) - 1"
    by (rule sat_mtz)
  have 6: "v (X i j) = 1 \<longrightarrow> (sat v (mtz N i j) \<longleftrightarrow> v (U i) - v (U j) \<le> - 1)"
    by (simp add: sat_mtz)
  have 7: "v (X i j) = 0 \<longrightarrow> (sat v (mtz N i j) \<longleftrightarrow> v (U i) - v (U j) \<le> N - 1)"
    by (simp add: sat_mtz)
  have 8: "v (X i j) = 0 \<and> 0 \<le> v (U i) \<and> v (U i) \<le> N - 1 \<and> 0 \<le> v (U j) \<and> v (U j) \<le> N - 1
            \<longrightarrow> sat v (mtz N i j)"
    by (simp add: sat_mtz)
  from 1 2 3 4 5 6 7 8 show ?thesis by (intro conjI)
qed

theorem subtour_constraints_mtz_witness:
  "complete_matrix sites3 dist3 \<and> distinct sites3 \<and>
   mtz 3 ''A'' ''B'' \<in> set (subtour_constraints sites3 (model_x (build_model sites3 dist3))) \<and>
   distinct (subtour_constraints sites3 (model_x (build_model sites3 dist3))) \<and>
   model_u (build_model sites3 dist3) ''A'' = Some \<lparr>lowBound = 0, upBound = 2, cat = LpInteger\<rparr> \<and>
   tour_assignment [''org'', ''A'', ''B''] (X ''A'' ''B'') = 1 \<and>
   tour_assignment [''org'', ''A'', ''B''] (U ''A'') - tour_assignment [''org'', ''A'', ''B''] (U ''B'')
     \<le> - 1 \<and>
   sat (tour_assignment [''org'', ''A'', ''B'']) (mtz 3 ''A'' ''B'') \<and>
   tour_assignment [''org'', ''A'', ''B''] (X ''B'' ''A'') = 0 \<and>
   sat (tour_assignment [''org'', ''A'', ''B'']) (mtz 3 ''B'' ''A'')"
proof -
  let ?v = "tour_assignment [''org'', ''A'', ''B'']"
  have c: "complete_matrix sites3 dist3"
    by (simp add: dist3_def complete_matrix_make)
  have d: "distinct sites3" by (simp add: sites3_def)
  note t = subtour_constraints_mtz [OF c, of ?v 3 "''A''" "''B''"]
  note t' = subtour_constraints_mtz [OF c, of ?v 3 "''B''" "''A''"]
  have "mtz (int (length sites3)) ''A'' ''B'' \<in> {mtz (int (length sites3)) i j | i j.
              i \<in> set sites3 \<and> j \<in> set sites3 \<and> i \<noteq> j \<and> i \<noteq> ''org'' \<and> j \<noteq> ''org''}"
    by (rule CollectI, rule exI [of _ "''A''"], rule exI [of _ "''B''"]) (simp add: sites3_def)
  with t have 1: "mtz (int (length sites3)) ''A'' ''B'' \<in>
      set (subtour_constraints sites3 (model_x (build_model sites3 dist3)))"
    by simp
  have l: "int (length sites3) = 3" by (simp add: sites3_def)
  from t d have 2: "distinct (subtour_constraints sites3 (model_x (build_model sites3 dist3)))"
    by blast
  from t have 3: "model_u (build_model sites3 dist3) ''A'' =
      Some \<lparr>lowBound = 0, upBound = int (length sites3) - 1, cat = LpInteger\<rparr>"
    by (simp add: sites3_def)
  have x1: "?v (X ''A'' ''B'') = 1" and u1: "?v (U ''A'') - ?v (U ''B'') \<le> - 1"
    by (simp_all add: example_defs)
  from t x1 u1 have 4: "sat ?v (mtz 3 ''A'' ''B'')" by blast
  have x0: "?v (X ''B'' ''A'') = 0 \<and> 0 \<le> ?v (U ''B'') \<and> ?v (U ''B'') \<le> 3 - 1 \<and>
      0 \<le> ?v (U ''A'') \<and> ?v (U ''A'') \<le> 3 - 1"
    by (simp add: example_defs)
  from t' x0 have 5: "sat ?v (mtz 3 ''B'' ''A'')" by blast
  from c d 1 2 3 x1 u1 4 x0 5 l show ?thesis by simp
qed

text \<open>
  C7. For a complete distance matrix the constraint loop adds, for every site \<open>k\<close>, the
  two equalities "the sum of \<open>x[i,k]\<close> over the sites \<open>i \<noteq> k\<close> is 1" and "the sum of
  \<open>x[k,i]\<close> over the sites \<open>i \<noteq> k\<close> is 1", \<open>2N\<close> constraints in all; every \<open>x[i,j]\<close>
  with \<open>i \<noteq> j\<close> is a binary variable.
\<close>

theorem degree_constraints_in_out:
  assumes "complete_matrix sites distances"
  shows "degree_constraints sites (model_x (build_model sites distances)) =
           concat (map (\<lambda>k.
             [ConstraintEQ (lpSum (map (\<lambda>i. aff_var (X i k)) (filter (\<lambda>i. i \<noteq> k) sites)))
                           (aff_const 1),
              ConstraintEQ (lpSum (map (\<lambda>i. aff_var (X k i)) (filter (\<lambda>i. i \<noteq> k) sites)))
                           (aff_const 1)]) sites) \<and>
         (\<forall>k\<in>set sites.
            (sat v (inbound sites (model_x (build_model sites distances)) k) \<longleftrightarrow>
               sum_list (map (\<lambda>i. v (X i k)) (filter (\<lambda>i. i \<noteq> k) sites)) = 1) \<and>
            (sat v (outbound sites (model_x (build_model sites distances)) k) \<longleftrightarrow>
               sum_list (map (\<lambda>i. v (X k i)) (filter (\<lambda>i. i \<noteq> k) sites)) = 1)) \<and>
         (\<forall>i\<in>set sites. \<forall>j\<in>set sites. i \<noteq> j \<longrightarrow>
            model_x (build_model sites distances) (i, j) =
              Some \<lparr>lowBound = 0, upBound = 1, cat = LpBinary\<rparr>) \<and>
         length (degree_constraints sites (model_x (build_model sites distances))) =
           2 * length sites"
proof -
  have 1: "degree_constraints sites (model_x (build_model sites distances)) =
           concat (map (\<lambda>k.
             [ConstraintEQ (lpSum (map (\<lambda>i. aff_var (X i k)) (filter (\<lambda>i. i \<noteq> k) sites)))
                           (aff_const 1),
              ConstraintEQ (lpSum (map (\<lambda>i. aff_var (X k i)) (filter (\<lambda>i. i \<noteq> k) sites)))
                           (aff_const 1)]) sites)"
    unfolding degree_constraints_def model_x_build
    by (rule arg_cong [where f = concat], rule map_cong)
       (simp_all add: inbound_def outbound_def filter_present_in [OF assms]
          filter_present_out [OF assms] del: not_None_eq)
  have 2: "\<forall>k\<in>set sites.
            (sat v (inbound sites (model_x (build_model sites distances)) k) \<longleftrightarrow>
               sum_list (map (\<lambda>i. v (X i k)) (filter (\<lambda>i. i \<noteq> k) sites)) = 1) \<and>
            (sat v (outbound sites (model_x (build_model sites distances)) k) \<longleftrightarrow>
               sum_list (map (\<lambda>i. v (X k i)) (filter (\<lambda>i. i \<noteq> k) sites)) = 1)"
    by (simp add: sat_inbound sat_outbound filter_present_in [OF assms]
          filter_present_out [OF assms] del: not_None_eq)
  have 3: "\<forall>i\<in>set sites. \<forall>j\<in>set sites. i \<noteq> j \<longrightarrow>
            model_x (build_model sites distances) (i, j) =
              Some \<lparr>lowBound = 0, upBound = 1, cat = LpBinary\<rparr>"
    using assms by (auto simp: complete_matrix_def intro!: x_vars_Some)
  have 4: "length (degree_constraints sites (model_x (build_model sites distances))) =
           2 * length sites"
    by (rule length_degree_constraints)
  from 1 2 3 4 show ?thesis by (intro conjI)
qed

theorem degree_constraints_in_out_witness:
  "complete_matrix sites3 dist3 \<and>
   degree_constraints sites3 (model_x (build_model sites3 dist3)) =
     [ConstraintEQ (lpSum [aff_var (X ''A'' ''org''), aff_var (X ''B'' ''org'')]) (aff_const 1),
      ConstraintEQ (lpSum [aff_var (X ''org'' ''A''), aff_var (X ''org'' ''B'')]) (aff_const 1),
      ConstraintEQ (lpSum [aff_var (X ''org'' ''A''), aff_var (X ''B'' ''A'')]) (aff_const 1),
      ConstraintEQ (lpSum [aff_var (X ''A'' ''org''), aff_var (X ''A'' ''B'')]) (aff_const 1),
      ConstraintEQ (lpSum [aff_var (X ''org'' ''B''), aff_var (X ''A'' ''B'')]) (aff_const 1),
      ConstraintEQ (lpSum [aff_var (X ''B'' ''org''), aff_var (X ''B'' ''A'')]) (aff_const 1)] \<and>
   sat (tour_assignment [''org'', ''A'', ''B''])
     (inbound sites3 (model_x (build_model sites3 dist3)) ''A'') \<and>
   sat (tour_assignment [''org'', ''A'', ''B''])
     (outbound sites3 (model_x (build_model sites3 dist3)) ''A'') \<and>
   model_x (build_model sites3 dist3) (''A'', ''B'') =
     Some \<lparr>lowBound = 0, upBound = 1, cat = LpBinary\<rparr> \<and>
   length (degree_constraints sites3 (model_x (build_model sites3 dist3))) = 2 * length sites3"
proof -
  let ?v = "tour_assignment [''org'', ''A'', ''B'']"
  have c: "complete_matrix sites3 dist3"
    by (simp add: dist3_def complete_matrix_make)
  note t = degree_constraints_in_out [OF c, of ?v]
  from t have 1: "degree_constraints sites3 (model_x (build_model sites3 dist3)) =
     [ConstraintEQ (lpSum [aff_var (X ''A'' ''org''), aff_var (X ''B'' ''org'')]) (aff_const 1),
      ConstraintEQ (lpSum [aff_var (X ''org'' ''A''), aff_var (X ''org'' ''B'')]) (aff_const 1),
      ConstraintEQ (lpSum [aff_var (X ''org'' ''A''), aff_var (X ''B'' ''A'')]) (aff_const 1),
      ConstraintEQ (lpSum [aff_var (X ''A'' ''org''), aff_var (X ''A'' ''B'')]) (aff_const 1),
      ConstraintEQ (lpSum [aff_var (X ''org'' ''B''), aff_var (X ''A'' ''B'')]) (aff_const 1),
      ConstraintEQ (lpSum [aff_var (X ''B'' ''org''), aff_var (X ''B'' ''A'')]) (aff_const 1)]"
    by (simp add: sites3_def)
  have a: "''A'' \<in> set sites3" by (simp add: sites3_def)
  have s: "sum_list (map (\<lambda>i. ?v (X i ''A'')) (filter (\<lambda>i. i \<noteq> ''A'') sites3)) = 1"
      "sum_list (map (\<lambda>i. ?v (X ''A'' i)) (filter (\<lambda>i. i \<noteq> ''A'') sites3)) = 1"
    by (simp_all add: example_defs)
  from t a s have 2: "sat ?v (inbound sites3 (model_x (build_model sites3 dist3)) ''A'')"
    and 3: "sat ?v (outbound sites3 (model_x (build_model sites3 dist3)) ''A'')"
    by blast+
  from t have 4: "model_x (build_model sites3 dist3) (''A'', ''B'') =
     Some \<lparr>lowBound = 0, upBound = 1, cat = LpBinary\<rparr>"
    by (simp add: sites3_def)
  from t have 5: "length (degree_constraints sites3 (model_x (build_model sites3 dist3))) =
      2 * length sites3"
    by blast
  from c 1 2 3 4 5 show ?thesis by (intro conjI)
qed

section \<open>The decoder: auxiliary facts\<close>

lemma py_index_Inr:
  "py_index xs a = Inr i \<Longrightarrow> i < length xs \<and> xs ! i = a \<and> take i xs @ drop (Suc i) xs = remove1 a xs"
proof (induction xs arbitrary: i)
  case Nil
  then show ?case by simp
next
  case (Cons b bs)
  show ?case
  proof (cases "b = a")
    case True
    with Cons.prems show ?thesis by simp
  next
    case False
    with Cons.prems obtain n where n: "py_index bs a = Inr n" "i = Suc n"
      by (auto split: sum.splits)
    from Cons.IH [OF n(1)] False n(2) show ?thesis by simp
  qed
qed

lemma py_index_Inl: "py_index xs a = Inl e \<longleftrightarrow> e = ValueError \<and> a \<notin> set xs"
  by (induction xs) (auto split: sum.splits)

lemma pop_index_eq:
  "pop_index xs a = (if a \<in> set xs then Inr (a, remove1 a xs) else Inl ValueError)"
proof (cases "py_index xs a")
  case (Inl e)
  then show ?thesis using py_index_Inl [of xs a e] by (simp add: pop_index_def)
next
  case (Inr i)
  have "a \<in> set xs"
  proof (rule ccontr)
    assume "a \<notin> set xs"
    then have "py_index xs a = Inl ValueError" by (simp add: py_index_Inl)
    with Inr show False by simp
  qed
  with Inr py_index_Inr [OF Inr] show ?thesis by (simp add: pop_index_def)
qed

lemma find_next_None_iff:
  "find_next x cur left = Inr None \<longleftrightarrow> (\<forall>j\<in>set left. x (cur, j) \<noteq> None \<and> x (cur, j) \<noteq> Some 1)"
  by (induction left) (auto split: option.splits)

lemma find_next_SomeI:
  "x (cur, k) = Some 1 \<Longrightarrow> \<forall>j\<in>set pre. x (cur, j) \<noteq> None \<and> x (cur, j) \<noteq> Some 1 \<Longrightarrow>
     find_next x cur (pre @ k # post) = Inr (Some k)"
  by (induction pre) auto

lemma find_next_SomeD:
  "find_next x cur left = Inr (Some k) \<Longrightarrow>
     \<exists>pre post. left = pre @ k # post \<and> x (cur, k) = Some 1 \<and>
        (\<forall>j\<in>set pre. x (cur, j) \<noteq> None \<and> x (cur, j) \<noteq> Some 1)"
proof (induction left)
  case Nil
  then show ?case by simp
next
  case (Cons b bs)
  from Cons.prems obtain a where a: "x (cur, b) = Some a"
    by (cases "x (cur, b)") auto
  show ?case
  proof (cases "a = 1")
    case True
    with a Cons.prems have "b = k" by simp
    with a True have "b # bs = [] @ k # bs \<and> x (cur, k) = Some 1 \<and>
        (\<forall>j\<in>set []. x (cur, j) \<noteq> None \<and> x (cur, j) \<noteq> Some 1)" by simp
    then show ?thesis by blast
  next
    case False
    with a Cons.prems have "find_next x cur bs = Inr (Some k)" by simp
    from Cons.IH [OF this] obtain pre post where p: "bs = pre @ k # post" "x (cur, k) = Some 1"
      "\<forall>j\<in>set pre. x (cur, j) \<noteq> None \<and> x (cur, j) \<noteq> Some 1" by blast
    with a False have "b # bs = (b # pre) @ k # post \<and> x (cur, k) = Some 1 \<and>
        (\<forall>j\<in>set (b # pre). x (cur, j) \<noteq> None \<and> x (cur, j) \<noteq> Some 1)" by simp
    then show ?thesis by blast
  qed
qed

lemma find_next_Some_iff:
  "find_next x cur left = Inr (Some k) \<longleftrightarrow>
     (\<exists>pre post. left = pre @ k # post \<and> x (cur, k) = Some 1 \<and>
        (\<forall>j\<in>set pre. x (cur, j) \<noteq> None \<and> x (cur, j) \<noteq> Some 1))"
proof
  assume "find_next x cur left = Inr (Some k)"
  then show "\<exists>pre post. left = pre @ k # post \<and> x (cur, k) = Some 1 \<and>
        (\<forall>j\<in>set pre. x (cur, j) \<noteq> None \<and> x (cur, j) \<noteq> Some 1)"
    by (rule find_next_SomeD)
next
  assume "\<exists>pre post. left = pre @ k # post \<and> x (cur, k) = Some 1 \<and>
        (\<forall>j\<in>set pre. x (cur, j) \<noteq> None \<and> x (cur, j) \<noteq> Some 1)"
  then obtain pre post where "left = pre @ k # post" "x (cur, k) = Some 1"
    "\<forall>j\<in>set pre. x (cur, j) \<noteq> None \<and> x (cur, j) \<noteq> Some 1"
    by (elim exE conjE)
  then show "find_next x cur left = Inr (Some k)"
    by (simp add: find_next_SomeI)
qed

lemma find_next_Inl: "find_next x cur left = Inl e \<Longrightarrow> e = KeyError"
  by (induction left) (auto split: option.splits if_splits)

lemma find_next_Some_mem: "find_next x cur left = Inr (Some k) \<Longrightarrow> k \<in> set left \<and> x (cur, k) = Some 1"
  by (auto simp: find_next_Some_iff)

lemma decode_step_cases:
  assumes "decode_step x (cur, left, tour) = Inr s'"
  shows "(find_next x cur left = Inr None \<and> s' = (cur, left, tour)) \<or>
         (\<exists>k\<in>set left. find_next x cur left = Inr (Some k) \<and> x (cur, k) = Some 1 \<and> s' = (k, remove1 k left, tour @ [k]))"
proof (cases "find_next x cur left")
  case (Inl e)
  with assms show ?thesis by simp
next
  case (Inr r)
  show ?thesis
  proof (cases r)
    case None
    with Inr assms show ?thesis by auto
  next
    case (Some k)
    with Inr have k: "k \<in> set left" "x (cur, k) = Some 1"
      using find_next_Some_mem by auto
    with Inr Some assms show ?thesis by (auto simp: pop_index_eq)
  qed
qed


lemma decode_loop_done: "decode_loop fuel x (cur, [], tour) = Some (Inr tour)"
  by simp

lemma decode_loop_0: "left \<noteq> [] \<Longrightarrow> decode_loop 0 x (cur, left, tour) = None"
  by simp

lemma decode_loop_Suc:
  "left \<noteq> [] \<Longrightarrow> decode_loop (Suc f) x (cur, left, tour) =
     (case decode_step x (cur, left, tour) of Inl e \<Rightarrow> Some (Inl e) | Inr s \<Rightarrow> decode_loop f x s)"
  by simp

declare decode_loop.simps [simp del]
declare decode_step.simps [simp del]

lemma reach_invariant:
  assumes "loop_reaches x (c0, l0, t0) s"
  shows "case s of (cur, left, tour) \<Rightarrow>
           mset tour + mset left = mset t0 + mset l0 \<and> (\<exists>ys. tour = t0 @ ys) \<and>
           (t0 \<noteq> [] \<and> last t0 = c0 \<longrightarrow> last tour = cur)"
  using assms
proof (induction rule: loop_reaches.induct)
  case reaches_start
  then show ?case by simp
next
  case (reaches_pass org sites_left tour s')
  from decode_step_cases [OF reaches_pass.hyps(3)] reaches_pass.IH show ?case
    by (elim disjE bexE conjE) auto
qed


lemma stuck_forever:
  assumes "left \<noteq> []" "find_next x cur left = Inr None"
  shows "decode_loop fuel x (cur, left, tour) = None"
proof (induction fuel)
  case 0
  show ?case using assms(1) by (simp add: decode_loop_0)
next
  case (Suc f)
  have "decode_step x (cur, left, tour) = Inr (cur, left, tour)"
    using assms(2) by (simp add: decode_step.simps)
  with Suc assms(1) show ?case by (simp add: decode_loop_Suc)
qed

lemma reaches_None:
  assumes "loop_reaches x s0 s"
  shows "(\<forall>fuel. decode_loop fuel x s = None) \<longrightarrow> (\<forall>fuel. decode_loop fuel x s0 = None)"
  using assms
proof (induction rule: loop_reaches.induct)
  case reaches_start
  show ?case by simp
next
  case (reaches_pass org sites_left tour s')
  show ?case
  proof
    assume a: "\<forall>fuel. decode_loop fuel x s' = None"
    have "decode_loop fuel x (org, sites_left, tour) = None" for fuel
    proof (cases fuel)
      case 0
      with reaches_pass.hyps(2) show ?thesis by (simp add: decode_loop_0)
    next
      case (Suc f)
      with reaches_pass.hyps(2,3) a show ?thesis by (simp add: decode_loop_Suc)
    qed
    with reaches_pass.IH show "\<forall>fuel. decode_loop fuel x s0 = None" by blast
  qed
qed

lemma initial_state_eq:
  "initial_state start sites =
     (if start \<in> set sites then Inr (start, remove1 start sites, [start]) else Inl ValueError)"
  by (simp add: initial_state_def pop_index_eq)

lemmas decoder_simps = decode_def reconstruct_def reconstruct_from_def initial_state_eq
  decode_loop.simps decode_step.simps pop_index_eq

section \<open>The decoder: properties\<close>

text \<open>
  C3. The inner loop compares with \<open>== 1\<close>, without a tolerance: it selects
  \<open>k\<close> exactly when \<open>k\<close> is in \<open>sites_left\<close>, the value of \<open>x[(org,k)]\<close> is
  exactly 1, and every site before \<open>k\<close> in \<open>sites_left\<close> has a value that is not 1.
\<close>

theorem find_next_compares_exactly:
  "find_next x org sites_left = Inr (Some k) \<longleftrightarrow>
     (\<exists>pre post. sites_left = pre @ k # post \<and> x (org, k) = Some 1 \<and>
        (\<forall>j\<in>set pre. x (org, j) \<noteq> None \<and> x (org, j) \<noteq> Some 1))"
proof
  assume "find_next x org sites_left = Inr (Some k)"
  then show "\<exists>pre post. sites_left = pre @ k # post \<and> x (org, k) = Some 1 \<and>
        (\<forall>j\<in>set pre. x (org, j) \<noteq> None \<and> x (org, j) \<noteq> Some 1)"
    by (rule find_next_SomeD)
next
  assume "\<exists>pre post. sites_left = pre @ k # post \<and> x (org, k) = Some 1 \<and>
        (\<forall>j\<in>set pre. x (org, j) \<noteq> None \<and> x (org, j) \<noteq> Some 1)"
  then obtain pre post where "sites_left = pre @ k # post" "x (org, k) = Some 1"
    "\<forall>j\<in>set pre. x (org, j) \<noteq> None \<and> x (org, j) \<noteq> Some 1"
    by (elim exE conjE)
  then show "find_next x org sites_left = Inr (Some k)"
    by (simp add: find_next_SomeI)
qed

theorem find_next_compares_exactly_witness:
  "find_next values3 ''A'' [''org'', ''B''] = Inr (Some ''B'') \<and>
   (\<exists>pre post. [''org'', ''B''] = pre @ ''B'' # post \<and> values3 (''A'', ''B'') = Some 1 \<and>
        (\<forall>j\<in>set pre. values3 (''A'', j) \<noteq> None \<and> values3 (''A'', j) \<noteq> Some 1))"
proof -
  have f: "find_next values3 ''A'' [''org'', ''B''] = Inr (Some ''B'')"
    by (simp add: example_defs)
  from f find_next_compares_exactly [of values3 "''A''" "[''org'', ''B'']" "''B''"]
  show ?thesis by simp
qed

text \<open>
  A value within \<open>1e-6\<close> of 1 on the only outbound edge of \<open>'org'\<close> is not selected.
\<close>

theorem tolerance_counterexample:
  "noisy3 (''org'', ''A'') = Some (1 - 1 / 2 ^ 24) \<and>
   \<bar>(1 - 1 / 2 ^ 24) - (1 :: rat)\<bar> \<le> 1 / 1000000 \<and>
   noisy3 (''org'', ''B'') = Some 0 \<and>
   find_next noisy3 ''org'' [''A'', ''B''] = Inr None \<and>
   decode 100 sites3 noisy3 dist3 = None"
  by (simp add: example_defs decoder_simps)

text \<open>
  With two outbound values equal to 1 at the first step the decoder returns a tour.
\<close>

theorem decode_error_counterexample:
  "ones3 (''org'', ''A'') = Some 1 \<and> ones3 (''org'', ''B'') = Some 1 \<and>
   decode 2 sites3 ones3 dist3 = Some (Inr ([''org'', ''A'', ''B'', ''org''], 30))"
  by (simp add: example_defs decoder_simps)

text \<open>
  C4. No pass of the loop raises a decoding error. When the loop reaches a state
  in which no remaining site has the value 1, it never finishes, so no tour, partial or
  complete, is returned. When a remaining site has the value 1, also when several have,
  the first of them in \<open>sites_left\<close> is taken and the loop goes on.
\<close>

theorem no_candidate_or_several:
  "(loop_reaches x s0 (org, sites_left, tour) \<and> sites_left \<noteq> [] \<and>
      (\<forall>k\<in>set sites_left. x (org, k) \<noteq> None \<and> x (org, k) \<noteq> Some 1)
    \<longrightarrow> (\<forall>fuel. decode_loop fuel x s0 = None)) \<and>
   (x (org, k) = Some 1 \<and> (\<forall>j\<in>set pre. x (org, j) \<noteq> None \<and> x (org, j) \<noteq> Some 1)
    \<longrightarrow> find_next x org (pre @ k # post) = Inr (Some k) \<and>
        decode_loop (Suc fuel) x (org, pre @ k # post, tour) =
        decode_loop fuel x (k, remove1 k (pre @ k # post), tour @ [k]))"
proof (intro conjI impI)
  assume a: "loop_reaches x s0 (org, sites_left, tour) \<and> sites_left \<noteq> [] \<and>
      (\<forall>k\<in>set sites_left. x (org, k) \<noteq> None \<and> x (org, k) \<noteq> Some 1)"
  then have "find_next x org sites_left = Inr None" by (simp add: find_next_None_iff)
  with a have "\<forall>fuel. decode_loop fuel x (org, sites_left, tour) = None"
    by (simp add: stuck_forever)
  with a reaches_None show "\<forall>fuel. decode_loop fuel x s0 = None" by blast
next
  assume a: "x (org, k) = Some 1 \<and> (\<forall>j\<in>set pre. x (org, j) \<noteq> None \<and> x (org, j) \<noteq> Some 1)"
  then show f: "find_next x org (pre @ k # post) = Inr (Some k)"
    by (simp add: find_next_SomeI)
  then have "decode_step x (org, pre @ k # post, tour) = Inr (k, remove1 k (pre @ k # post), tour @ [k])"
    by (simp add: decode_step.simps pop_index_eq)
  then show "decode_loop (Suc fuel) x (org, pre @ k # post, tour) =
        decode_loop fuel x (k, remove1 k (pre @ k # post), tour @ [k])"
    by (simp add: decode_loop_Suc)
qed

theorem no_candidate_or_several_witness:
  "loop_reaches noisy3 (''org'', [''A'', ''B''], [''org'']) (''org'', [''A'', ''B''], [''org'']) \<and>
   [''A'', ''B''] \<noteq> [] \<and>
   noisy3 (''org'', ''A'') \<noteq> None \<and> noisy3 (''org'', ''A'') \<noteq> Some 1 \<and>
   noisy3 (''org'', ''B'') \<noteq> None \<and> noisy3 (''org'', ''B'') \<noteq> Some 1 \<and>
   decode_loop 7 noisy3 (''org'', [''A'', ''B''], [''org'']) = None \<and>
   ones3 (''org'', ''A'') = Some 1 \<and>
   find_next ones3 ''org'' ([] @ ''A'' # [''B'']) = Inr (Some ''A'') \<and>
   decode_loop (Suc 1) ones3 (''org'', [] @ ''A'' # [''B''], [''org'']) =
     decode_loop 1 ones3 (''A'', remove1 ''A'' ([] @ ''A'' # [''B'']), [''org''] @ [''A''])"
proof -
  have r: "loop_reaches noisy3 (''org'', [''A'', ''B''], [''org'']) (''org'', [''A'', ''B''], [''org''])"
    by (rule loop_reaches.reaches_start)
  have n: "noisy3 (''org'', ''A'') \<noteq> None \<and> noisy3 (''org'', ''A'') \<noteq> Some 1 \<and>
      noisy3 (''org'', ''B'') \<noteq> None \<and> noisy3 (''org'', ''B'') \<noteq> Some 1"
    by (simp add: example_defs del: not_None_eq)
  then have n': "\<forall>k\<in>set [''A'', ''B'']. noisy3 (''org'', k) \<noteq> None \<and> noisy3 (''org'', k) \<noteq> Some 1"
    by (simp del: not_None_eq)
  have o: "ones3 (''org'', ''A'') = Some 1" by (simp add: example_defs)
  from r n' no_candidate_or_several [where x = noisy3 and ?s0.0 = "(''org'', [''A'', ''B''], [''org''])"
      and org = "''org''" and sites_left = "[''A'', ''B'']" and tour = "[''org'']"]
  have 1: "decode_loop 7 noisy3 (''org'', [''A'', ''B''], [''org'']) = None"
    by blast
  from o no_candidate_or_several [where x = ones3 and org = "''org''" and tour = "[''org'']"
      and k = "''A''" and pre = "[]" and post = "[''B'']" and fuel = 1]
  have 2: "find_next ones3 ''org'' ([] @ ''A'' # [''B'']) = Inr (Some ''A'') \<and>
   decode_loop (Suc 1) ones3 (''org'', [] @ ''A'' # [''B''], [''org'']) =
     decode_loop 1 ones3 (''A'', remove1 ''A'' ([] @ ''A'' # [''B'']), [''org''] @ [''A''])"
    by simp
  from r n o 1 2 show ?thesis by (simp del: not_None_eq)
qed

text \<open>
  C9. In every state of the while loop, \<open>tour\<close> and \<open>sites_left\<close> together hold
  the sites as they were listed, each as often as it was listed, so their lengths add up to
  \<open>N\<close>; when the sites are distinct the two lists are disjoint and without repetition.
  A pass that appends a site to \<open>tour\<close> removes that site from \<open>sites_left\<close>.
\<close>

theorem tour_and_sites_left_partition:
  assumes "initial_state start sites = Inr s0"
    and "loop_reaches x s0 (cur, left, tour)"
  shows "mset tour + mset left = mset sites \<and>
         length tour + length left = length sites \<and>
         (distinct sites \<longrightarrow> set tour \<inter> set left = {} \<and> distinct tour \<and> distinct left) \<and>
         (\<forall>s'. left \<noteq> [] \<and> decode_step x (cur, left, tour) = Inr s' \<longrightarrow>
             s' = (cur, left, tour) \<or> (\<exists>k\<in>set left. s' = (k, remove1 k left, tour @ [k])))"
proof -
  from assms(1) have mem: "start \<in> set sites" and s0: "s0 = (start, remove1 start sites, [start])"
    by (auto simp: initial_state_eq split: if_splits)
  from reach_invariant [OF assms(2) [unfolded s0]]
  have "mset tour + mset left = mset [start] + mset (remove1 start sites)" by simp
  with mem have m: "mset tour + mset left = mset sites" by simp
  then have m': "mset (tour @ left) = mset sites" by simp
  from m' have len: "length tour + length left = length sites"
    using mset_eq_length [OF m'] by simp
  have d: "distinct (tour @ left)" if "distinct sites"
    using that m' mset_eq_imp_distinct_iff by blast
  have step: "s' = (cur, left, tour) \<or> (\<exists>k\<in>set left. s' = (k, remove1 k left, tour @ [k]))"
    if "decode_step x (cur, left, tour) = Inr s'" for s'
    using decode_step_cases [OF that] by blast
  from m len d step show ?thesis by auto
qed

theorem tour_and_sites_left_partition_witness:
  "initial_state ''org'' sites3 = Inr (''org'', [''A'', ''B''], [''org'']) \<and>
   loop_reaches values3 (''org'', [''A'', ''B''], [''org'']) (''A'', [''B''], [''org'', ''A'']) \<and>
   distinct sites3 \<and>
   set [''org'', ''A''] \<inter> set [''B''] = {} \<and>
   length [''org'', ''A''] + length [''B''] = length sites3"
proof -
  have i: "initial_state ''org'' sites3 = Inr (''org'', [''A'', ''B''], [''org''])"
    by (simp add: initial_state_eq sites3_def)
  have "decode_step values3 (''org'', [''A'', ''B''], [''org'']) = Inr (''A'', [''B''], [''org'', ''A''])"
    by (simp add: example_defs decoder_simps)
  then have r: "loop_reaches values3 (''org'', [''A'', ''B''], [''org'']) (''A'', [''B''], [''org'', ''A''])"
    using loop_reaches.reaches_pass [OF loop_reaches.reaches_start] by blast
  have d: "distinct sites3" by (simp add: sites3_def)
  from i r d tour_and_sites_left_partition [OF i r] show ?thesis by simp
qed



section \<open>Feasible assignments and cycles: auxiliary facts\<close>

lemma sum_list_one_ex:
  assumes "\<forall>i\<in>set xs. 0 \<le> f i \<and> f i \<le> (1::int)" and "sum_list (map f xs) = 1"
  shows "\<exists>i\<in>set xs. f i = 1"
proof (rule ccontr)
  assume "\<not> (\<exists>i\<in>set xs. f i = 1)"
  with assms(1) have "\<forall>i\<in>set xs. f i = 0" by force
  then have "sum_list (map f xs) = 0" by (induction xs) auto
  with assms(2) show False by simp
qed

lemma sum_list_one_unique:
  assumes "distinct xs" and "\<forall>i\<in>set xs. 0 \<le> f i" and "sum_list (map f xs) = (1::int)"
    and "a \<in> set xs" and "b \<in> set xs" and "f a = 1" and "f b = 1"
  shows "a = b"
proof (rule ccontr)
  assume ne: "a \<noteq> b"
  have "sum f {a, b} \<le> sum f (set xs)"
    by (rule sum_mono2) (use assms in auto)
  also have "sum f (set xs) = sum_list (map f xs)"
    using assms(1) by (simp add: sum_list_distinct_conv_sum_set)
  finally show False using ne assms(3,6,7) by simp
qed

lemma sum_list_indicator:
  assumes "distinct xs" and "a \<in> set xs" and "\<forall>i\<in>set xs. f i = (if i = a then 1 else 0)"
  shows "sum_list (map f xs) = (1::int)"
proof -
  have "sum_list (map f xs) = sum f (set xs)"
    using assms(1) by (simp add: sum_list_distinct_conv_sum_set)
  also have "\<dots> = sum (\<lambda>i. if i = a then 1 else 0) (set xs)"
    by (rule sum.cong) (use assms(3) in auto)
  also have "\<dots> = 1" using assms(2) by simp
  finally show ?thesis .
qed

lemma perm_edges_in:
  assumes "perm_edges S E" and "k \<in> S"
  shows "\<exists>i. (i, k) \<in> E \<and> (\<forall>i'. (i', k) \<in> E \<longrightarrow> i = i')"
proof -
  from assms have "\<exists>!i. (i, k) \<in> E" by (simp add: perm_edges_def)
  then show ?thesis by (elim ex1E) blast
qed

lemma perm_edges_out:
  assumes "perm_edges S E" and "k \<in> S"
  shows "\<exists>j. (k, j) \<in> E \<and> (\<forall>j'. (k, j') \<in> E \<longrightarrow> j = j')"
proof -
  from assms have "\<exists>!j. (k, j) \<in> E" by (simp add: perm_edges_def)
  then show ?thesis by (elim ex1E) blast
qed

lemma perm_edges_mem:
  assumes "perm_edges S E" and "(i, j) \<in> E"
  shows "i \<in> S" and "j \<in> S" and "i \<noteq> j"
  using assms by (auto simp: perm_edges_def)

lemma degree_feasible_iff:
  "degree_feasible sites d v \<longleftrightarrow>
     (\<forall>i\<in>set sites. \<forall>j\<in>set sites. d (i, j) \<noteq> None \<longrightarrow> 0 \<le> v (X i j) \<and> v (X i j) \<le> 1) \<and>
     (\<forall>k\<in>set sites.
        sum_list (map (\<lambda>i. v (X i k)) (filter (\<lambda>i. d (i, k) \<noteq> None) sites)) = 1 \<and>
        sum_list (map (\<lambda>i. v (X k i)) (filter (\<lambda>i. d (k, i) \<noteq> None) sites)) = 1)"
proof -
  have b: "within_bounds (x_vars d (i, j)) a \<longleftrightarrow> (d (i, j) \<noteq> None \<longrightarrow> 0 \<le> a \<and> a \<le> 1)" for i j a
    by (cases "d (i, j)") (simp_all add: within_bounds_def x_vars_def)
  show ?thesis
    by (simp add: degree_feasible_def Let_def x_bounds_def b set_degree_constraints
        sat_inbound sat_outbound x_vars_None ball_Un del: not_None_eq)
qed

lemma feasible_iff:
  "feasible sites d v \<longleftrightarrow>
     degree_feasible sites d v \<and>
     (\<forall>i\<in>set sites. 0 \<le> v (U i) \<and> v (U i) \<le> int (length sites) - 1) \<and>
     (\<forall>i\<in>set sites. \<forall>j\<in>set sites. i \<noteq> j \<and> i \<noteq> ''org'' \<and> j \<noteq> ''org'' \<and> d (i, j) \<noteq> None \<longrightarrow>
        v (U i) - v (U j) \<le> int (length sites) * (1 - v (X i j)) - 1)"
proof -
  have u: "within_bounds (u_vars sites i) a \<longleftrightarrow> 0 \<le> a \<and> a \<le> int (length sites) - 1"
    if "i \<in> set sites" for i a
    using that by (simp add: within_bounds_def u_vars_def)
  have m: "(\<forall>c\<in>set (subtour_constraints sites (x_vars d)). sat v c) \<longleftrightarrow>
     (\<forall>i\<in>set sites. \<forall>j\<in>set sites. i \<noteq> j \<and> i \<noteq> ''org'' \<and> j \<noteq> ''org'' \<and> d (i, j) \<noteq> None \<longrightarrow>
        v (U i) - v (U j) \<le> int (length sites) * (1 - v (X i j)) - 1)"
    by (auto simp: subtour_constraints_eq sat_mtz x_vars_None simp del: not_None_eq)
  show ?thesis
    unfolding feasible_def degree_feasible_def Let_def u_bounds_def model_constraints_build
      model_x_build model_u_build set_append ball_Un m
    using u by auto
qed

lemma degree_perm:
  assumes "distinct sites" and c: "complete_matrix sites d" and f: "degree_feasible sites d v"
  shows "perm_edges (set sites) (selected sites v)"
proof -
  from f have b: "\<forall>i\<in>set sites. \<forall>j\<in>set sites. d (i, j) \<noteq> None \<longrightarrow> 0 \<le> v (X i j) \<and> v (X i j) \<le> 1"
    and s: "\<forall>k\<in>set sites.
        sum_list (map (\<lambda>i. v (X i k)) (filter (\<lambda>i. d (i, k) \<noteq> None) sites)) = 1 \<and>
        sum_list (map (\<lambda>i. v (X k i)) (filter (\<lambda>i. d (k, i) \<noteq> None) sites)) = 1"
    by (simp_all add: degree_feasible_iff del: not_None_eq)
  from c have p: "d (i, j) \<noteq> None \<longleftrightarrow> i \<noteq> j" if "i \<in> set sites" "j \<in> set sites" for i j
    using that by (simp add: complete_matrix_def del: not_None_eq)
  have 1: "\<forall>(i, j)\<in>selected sites v. i \<in> set sites \<and> j \<in> set sites \<and> i \<noteq> j"
    by (simp add: selected_def)
  have 2: "\<exists>!i. (i, k) \<in> selected sites v" if k: "k \<in> set sites" for k
  proof -
    let ?xs = "filter (\<lambda>i. d (i, k) \<noteq> None) sites"
    let ?f = "\<lambda>i. v (X i k)"
    have xs: "set ?xs = {i \<in> set sites. i \<noteq> k}" using p k by auto
    have bd: "\<forall>i\<in>set ?xs. 0 \<le> ?f i \<and> ?f i \<le> 1" using b k by simp
    have sm: "sum_list (map ?f ?xs) = 1" using s k by blast
    have dx: "distinct ?xs" using assms(1) by simp
    from sum_list_one_ex [OF bd sm] obtain i where i: "i \<in> set ?xs" "?f i = 1" by blast
    have "i' = i" if "(i', k) \<in> selected sites v" for i'
    proof -
      from that have "i' \<in> set ?xs" "?f i' = 1" using xs by (auto simp: selected_def)
      with sum_list_one_unique [OF dx _ sm _ i(1) _ i(2), of i'] bd show ?thesis by auto
    qed
    moreover have "(i, k) \<in> selected sites v" using i xs k by (auto simp: selected_def)
    ultimately show ?thesis by blast
  qed
  have 3: "\<exists>!j. (k, j) \<in> selected sites v" if k: "k \<in> set sites" for k
  proof -
    let ?xs = "filter (\<lambda>i. d (k, i) \<noteq> None) sites"
    let ?f = "\<lambda>i. v (X k i)"
    have xs: "set ?xs = {i \<in> set sites. i \<noteq> k}" using p k by auto
    have bd: "\<forall>i\<in>set ?xs. 0 \<le> ?f i \<and> ?f i \<le> 1" using b k by simp
    have sm: "sum_list (map ?f ?xs) = 1" using s k by blast
    have dx: "distinct ?xs" using assms(1) by simp
    from sum_list_one_ex [OF bd sm] obtain i where i: "i \<in> set ?xs" "?f i = 1" by blast
    have "i' = i" if "(k, i') \<in> selected sites v" for i'
    proof -
      from that have "i' \<in> set ?xs" "?f i' = 1" using xs by (auto simp: selected_def)
      with sum_list_one_unique [OF dx _ sm _ i(1) _ i(2), of i'] bd show ?thesis by auto
    qed
    moreover have "(k, i) \<in> selected sites v" using i xs k by (auto simp: selected_def)
    ultimately show ?thesis by blast
  qed
  from 1 2 3 show ?thesis unfolding perm_edges_def by blast
qed

lemma perm_degree:
  assumes "distinct sites" and c: "complete_matrix sites d"
    and pe: "perm_edges (set sites) E" and en: "encodes sites v E"
  shows "degree_feasible sites d v"
proof -
  from c have p: "d (i, j) \<noteq> None \<longleftrightarrow> i \<noteq> j" if "i \<in> set sites" "j \<in> set sites" for i j
    using that by (simp add: complete_matrix_def del: not_None_eq)
  from en have e: "v (X i j) = (if (i, j) \<in> E then 1 else 0)"
    if "i \<in> set sites" "j \<in> set sites" "i \<noteq> j" for i j
    using that by (simp add: encodes_def)
  have b: "\<forall>i\<in>set sites. \<forall>j\<in>set sites. d (i, j) \<noteq> None \<longrightarrow> 0 \<le> v (X i j) \<and> v (X i j) \<le> 1"
    using p e by (simp del: not_None_eq)
  have s: "sum_list (map (\<lambda>i. v (X i k)) (filter (\<lambda>i. d (i, k) \<noteq> None) sites)) = 1 \<and>
        sum_list (map (\<lambda>i. v (X k i)) (filter (\<lambda>i. d (k, i) \<noteq> None) sites)) = 1"
    if k: "k \<in> set sites" for k
  proof
    from perm_edges_in [OF pe k] obtain i where i: "(i, k) \<in> E" "\<forall>i'. (i', k) \<in> E \<longrightarrow> i = i'"
      by (elim exE conjE)
    from perm_edges_mem [OF pe i(1)] have ik: "i \<in> set sites" "i \<noteq> k" by simp_all
    show "sum_list (map (\<lambda>i. v (X i k)) (filter (\<lambda>i. d (i, k) \<noteq> None) sites)) = 1"
    proof (rule sum_list_indicator [where a = i])
      show "distinct (filter (\<lambda>i. d (i, k) \<noteq> None) sites)" using assms(1) by simp
      show "i \<in> set (filter (\<lambda>i. d (i, k) \<noteq> None) sites)" using ik p k by simp
      show "\<forall>i'\<in>set (filter (\<lambda>i. d (i, k) \<noteq> None) sites). v (X i' k) = (if i' = i then 1 else 0)"
      proof
        fix i' assume "i' \<in> set (filter (\<lambda>i. d (i, k) \<noteq> None) sites)"
        then have m: "i' \<in> set sites" "d (i', k) \<noteq> None" by simp_all
        with p [OF m(1) k] have ne: "i' \<noteq> k" by simp
        have "(i', k) \<in> E \<longleftrightarrow> i' = i" using i by blast
        with e [OF m(1) k ne] show "v (X i' k) = (if i' = i then 1 else 0)" by simp
      qed
    qed
  next
    from perm_edges_out [OF pe k] obtain j where j: "(k, j) \<in> E" "\<forall>j'. (k, j') \<in> E \<longrightarrow> j = j'"
      by (elim exE conjE)
    from perm_edges_mem [OF pe j(1)] have jk: "j \<in> set sites" "j \<noteq> k" by simp_all
    show "sum_list (map (\<lambda>i. v (X k i)) (filter (\<lambda>i. d (k, i) \<noteq> None) sites)) = 1"
    proof (rule sum_list_indicator [where a = j])
      show "distinct (filter (\<lambda>i. d (k, i) \<noteq> None) sites)" using assms(1) by simp
      show "j \<in> set (filter (\<lambda>i. d (k, i) \<noteq> None) sites)" using jk p k by simp
      show "\<forall>i'\<in>set (filter (\<lambda>i. d (k, i) \<noteq> None) sites). v (X k i') = (if i' = j then 1 else 0)"
      proof
        fix i' assume "i' \<in> set (filter (\<lambda>i. d (k, i) \<noteq> None) sites)"
        then have m: "i' \<in> set sites" "d (k, i') \<noteq> None" by simp_all
        with p [OF k m(1)] have ne: "k \<noteq> i'" by simp
        have "(k, i') \<in> E \<longleftrightarrow> i' = j" using j by blast
        with e [OF k m(1) ne] show "v (X k i') = (if i' = j then 1 else 0)" by simp
      qed
    qed
  qed
  from b s show ?thesis unfolding degree_feasible_iff by blast
qed

lemma mtz_escape:
  assumes out: "\<forall>a\<in>S. \<exists>j\<in>S. (a, j) \<in> E"
    and closed: "\<forall>a\<in>S. \<forall>b\<in>T. (a, b) \<in> E \<longrightarrow> a \<in> T"
    and org: "\<forall>a\<in>S - T. a \<noteq> ''org''"
    and rk: "ranked S E u M"
  shows "S \<subseteq> T"
proof (rule ccontr)
  assume "\<not> S \<subseteq> T"
  then obtain s where s: "s \<in> S" "s \<notin> T" by blast
  have step: "\<exists>a\<in>S - T. u s + int n \<le> u a" for n
  proof (induction n)
    case 0
    from s show ?case by auto
  next
    case (Suc n)
    then obtain a where a: "a \<in> S" "a \<notin> T" "u s + int n \<le> u a" by blast
    from out a(1) obtain j where j: "j \<in> S" "(a, j) \<in> E" by blast
    have jT: "j \<notin> T"
    proof
      assume "j \<in> T"
      with closed a(1) j(2) have "a \<in> T" by blast
      with a(2) show False by simp
    qed
    from org a(1,2) have "a \<noteq> ''org''" by blast
    moreover from org j(1) jT have "j \<noteq> ''org''" by blast
    ultimately have "u a + 1 \<le> u j" using rk j(2) unfolding ranked_def by blast
    with a(3) have "u s + int (Suc n) \<le> u j" by simp
    with j(1) jT show ?case by blast
  qed
  from step [of "nat (M - u s) + 1"] obtain a
    where a: "a \<in> S" "u s + int (nat (M - u s) + 1) \<le> u a" by blast
  from rk a(1) have "u a \<le> M" unfolding ranked_def by blast
  with a(2) show False by linarith
qed

lemma path_pred:
  "successively (\<lambda>a b. (a, b) \<in> E) p \<Longrightarrow> b \<in> set (tl p) \<Longrightarrow> \<exists>a\<in>set (butlast p). (a, b) \<in> E"
proof (induction p)
  case Nil
  then show ?case by simp
next
  case (Cons x p)
  show ?case
  proof (cases p)
    case Nil
    with Cons.prems show ?thesis by simp
  next
    case (Cons y r)
    show ?thesis
    proof (cases "b = y")
      case True
      with Cons.prems(1) \<open>p = y # r\<close> show ?thesis by simp
    next
      case False
      with Cons.prems \<open>p = y # r\<close> have "successively (\<lambda>a b. (a, b) \<in> E) p" "b \<in> set (tl p)"
        by simp_all
      from Cons.IH [OF this] \<open>p = y # r\<close> show ?thesis by auto
    qed
  qed
qed

lemma last_notin_butlast: "distinct p \<Longrightarrow> p \<noteq> [] \<Longrightarrow> last p \<notin> set (butlast p)"
proof -
  assume d: "distinct p" and n: "p \<noteq> []"
  from n have "p = butlast p @ [last p]" by simp
  with d have "distinct (butlast p @ [last p])" by simp
  then show ?thesis by simp
qed

lemma path_extend:
  assumes pe: "perm_edges S E" and rk: "ranked S E u M"
    and p: "p \<noteq> []" "hd p = ''org''" "distinct p" "set p \<subseteq> S"
      "successively (\<lambda>a b. (a, b) \<in> E) p"
  shows "\<exists>k\<in>S. (last p, k) \<in> E \<and> (k \<in> set p \<longrightarrow> k = ''org'' \<and> set p = S)"
proof -
  from p(1,4) have lS: "last p \<in> S" using last_in_set by blast
  from perm_edges_out [OF pe lS] obtain k where k: "(last p, k) \<in> E" by blast
  from perm_edges_mem [OF pe k] have kS: "k \<in> S" by simp
  have in_uniq: "a = a'" if "(a, b) \<in> E" "(a', b) \<in> E" for a a' b
  proof -
    from perm_edges_mem [OF pe that(1)] have "b \<in> S" by simp
    from perm_edges_in [OF pe this] obtain i where "\<forall>i'. (i', b) \<in> E \<longrightarrow> i = i'" by blast
    with that show ?thesis by metis
  qed
  have pred: "\<exists>a\<in>set (butlast p). (a, b) \<in> E" if "b \<in> set (tl p)" for b
    using path_pred [OF p(5) that] .
  have not_tl: "k \<notin> set (tl p)"
  proof
    assume "k \<in> set (tl p)"
    from pred [OF this] obtain a where a: "a \<in> set (butlast p)" "(a, k) \<in> E" by blast
    from in_uniq [OF a(2) k] a(1) have "last p \<in> set (butlast p)" by simp
    with last_notin_butlast [OF p(3) p(1)] show False by simp
  qed
  have split: "set p = insert (hd p) (set (tl p))" using p(1) by (cases p) auto
  have "k = ''org'' \<and> set p = S" if kp: "k \<in> set p"
  proof
    from kp not_tl split p(2) show korg: "k = ''org''" by auto
    have out: "\<forall>a\<in>S. \<exists>j\<in>S. (a, j) \<in> E"
    proof
      fix a assume "a \<in> S"
      from perm_edges_out [OF pe this] obtain j where j: "(a, j) \<in> E" by blast
      from perm_edges_mem [OF pe j] j show "\<exists>j\<in>S. (a, j) \<in> E" by blast
    qed
    have closed: "\<forall>a\<in>S. \<forall>b\<in>set p. (a, b) \<in> E \<longrightarrow> a \<in> set p"
    proof (intro ballI impI)
      fix a b assume b: "b \<in> set p" and ab: "(a, b) \<in> E"
      show "a \<in> set p"
      proof (cases "b \<in> set (tl p)")
        case True
        from pred [OF True] obtain a' where a': "a' \<in> set (butlast p)" "(a', b) \<in> E" by blast
        from in_uniq [OF ab a'(2)] a'(1) show ?thesis by (auto dest: in_set_butlastD)
      next
        case False
        with b split p(2) korg have "b = k" by auto
        with ab k in_uniq have "a = last p" by blast
        with p(1) show ?thesis by simp
      qed
    qed
    have org: "\<forall>a\<in>S - set p. a \<noteq> ''org''" using kp korg by auto
    from mtz_escape [OF out closed org rk] p(4) show "set p = S" by blast
  qed
  with k kS show ?thesis by blast
qed

lemma find_next_first:
  assumes "\<forall>j\<in>set left. x (cur, j) \<noteq> None" and "k \<in> set left" and "x (cur, k) = Some 1"
  shows "\<exists>k'\<in>set left. find_next x cur left = Inr (Some k') \<and> x (cur, k') = Some 1"
  using assms
proof (induction left)
  case Nil
  then show ?case by simp
next
  case (Cons b bs)
  from Cons.prems(1) obtain a where a: "x (cur, b) = Some a" by auto
  show ?case
  proof (cases "a = 1")
    case True
    with a show ?thesis by simp
  next
    case False
    with a Cons.prems have "k \<in> set bs" by auto
    with Cons.IH Cons.prems(1,3) obtain k' where "k' \<in> set bs"
      "find_next x cur bs = Inr (Some k')" "x (cur, k') = Some 1" by auto
    with a False show ?thesis by simp
  qed
qed

lemma decode_loop_follow:
  assumes pe: "perm_edges S E" and rk: "ranked S E u M"
    and keys: "\<forall>a\<in>S. \<forall>b\<in>S. a \<noteq> b \<longrightarrow> x (a, b) \<noteq> None"
    and xe: "\<forall>a\<in>S. \<forall>b\<in>S. (x (a, b) = Some 1) = ((a, b) \<in> E)"
  shows "p \<noteq> [] \<Longrightarrow> hd p = ''org'' \<Longrightarrow> last p = cur \<Longrightarrow> distinct p \<Longrightarrow> distinct left \<Longrightarrow>
     set p \<union> set left = S \<Longrightarrow> set p \<inter> set left = {} \<Longrightarrow>
     successively (\<lambda>a b. (a, b) \<in> E) p \<Longrightarrow> length left \<le> fuel \<Longrightarrow>
     \<exists>t. decode_loop fuel x (cur, left, p) = Some (Inr t) \<and> t \<noteq> [] \<and> hd t = ''org'' \<and>
         distinct t \<and> set t = S \<and> successively (\<lambda>a b. (a, b) \<in> E) t"
proof (induction fuel arbitrary: p cur left)
  case 0
  then have "left = []" by simp
  with 0 show ?case by (simp add: decode_loop_done)
next
  case (Suc f)
  show ?case
  proof (cases "left = []")
    case True
    with Suc.prems show ?thesis by (simp add: decode_loop_done)
  next
    case False
    from Suc.prems(6) have pS: "set p \<subseteq> S" by blast
    from path_extend [OF pe rk Suc.prems(1,2,4) pS Suc.prems(8)]
    obtain k where k: "k \<in> S" "(last p, k) \<in> E" "k \<in> set p \<longrightarrow> k = ''org'' \<and> set p = S"
      by blast
    from False obtain l where l: "l \<in> set left" by (cases left) auto
    with Suc.prems(7) have "l \<notin> set p" by blast
    moreover from l Suc.prems(6) have "l \<in> S" by blast
    ultimately have "set p \<noteq> S" by blast
    with k(3) have knp: "k \<notin> set p" by blast
    with k(1) Suc.prems(6) have kl: "k \<in> set left" by blast
    from Suc.prems(1,3) have curp: "cur \<in> set p" using last_in_set by blast
    with pS have curS: "cur \<in> S" by blast
    from xe curS k(1) k(2) Suc.prems(3) have xk: "x (cur, k) = Some 1" by simp
    have present: "\<forall>j\<in>set left. x (cur, j) \<noteq> None"
    proof
      fix j assume j: "j \<in> set left"
      with Suc.prems(7) curp have "cur \<noteq> j" by blast
      moreover from j Suc.prems(6) have "j \<in> S" by blast
      ultimately show "x (cur, j) \<noteq> None" using keys curS by blast
    qed
    from find_next_first [OF present kl xk] obtain k' where k': "k' \<in> set left"
      "find_next x cur left = Inr (Some k')" "x (cur, k') = Some 1" by blast
    from k'(1) Suc.prems(6) have k'S: "k' \<in> S" by blast
    from k'(1) Suc.prems(7) have k'np: "k' \<notin> set p" by blast
    from xe curS k'S k'(3) have edge: "(cur, k') \<in> E" by simp
    from k'(1,2) have step: "decode_step x (cur, left, p) = Inr (k', remove1 k' left, p @ [k'])"
      by (simp add: decode_step.simps pop_index_eq)
    have "\<exists>t. decode_loop f x (k', remove1 k' left, p @ [k']) = Some (Inr t) \<and> t \<noteq> [] \<and>
         hd t = ''org'' \<and> distinct t \<and> set t = S \<and> successively (\<lambda>a b. (a, b) \<in> E) t"
    proof (rule Suc.IH)
      show "p @ [k'] \<noteq> []" by simp
      show "hd (p @ [k']) = ''org''" using Suc.prems(1,2) by simp
      show "last (p @ [k']) = k'" by simp
      show "distinct (p @ [k'])" using Suc.prems(4) k'np by simp
      show "distinct (remove1 k' left)" using Suc.prems(5) by simp
      show "set (p @ [k']) \<union> set (remove1 k' left) = S"
        using Suc.prems(5,6) k'(1) by auto
      show "set (p @ [k']) \<inter> set (remove1 k' left) = {}"
        using Suc.prems(5,7) by auto
      show "successively (\<lambda>a b. (a, b) \<in> E) (p @ [k'])"
        using Suc.prems(1,3,8) edge by (simp add: successively_append_iff)
      show "length (remove1 k' left) \<le> f"
        using Suc.prems(9) k'(1) by (simp add: length_remove1)
    qed
    with False step show ?thesis by (simp add: decode_loop_Suc)
  qed
qed

lemma feasible_perm:
  assumes "distinct sites" and "complete_matrix sites d" and "feasible sites d v"
  shows "perm_edges (set sites) (selected sites v)"
  using assms by (simp add: feasible_iff degree_perm)

lemma feasible_ranked:
  assumes c: "complete_matrix sites d" and f: "feasible sites d v"
  shows "ranked (set sites) (selected sites v) (\<lambda>i. v (U i)) (int (length sites) - 1)"
proof -
  from f have m: "\<forall>i\<in>set sites. \<forall>j\<in>set sites.
        i \<noteq> j \<and> i \<noteq> ''org'' \<and> j \<noteq> ''org'' \<and> d (i, j) \<noteq> None \<longrightarrow>
        v (U i) - v (U j) \<le> int (length sites) * (1 - v (X i j)) - 1"
    and b: "\<forall>i\<in>set sites. 0 \<le> v (U i) \<and> v (U i) \<le> int (length sites) - 1"
    by (simp_all add: feasible_iff del: not_None_eq)
  have "v (U i) + 1 \<le> v (U j)"
    if e: "(i, j) \<in> selected sites v" and n: "i \<noteq> ''org''" "j \<noteq> ''org''" for i j
  proof -
    from e have ij: "i \<in> set sites" "j \<in> set sites" "i \<noteq> j" "v (X i j) = 1"
      by (simp_all add: selected_def)
    with c have "d (i, j) \<noteq> None" by (simp add: complete_matrix_def del: not_None_eq)
    with m ij n have "v (U i) - v (U j) \<le> int (length sites) * (1 - v (X i j)) - 1" by blast
    with ij(4) show ?thesis by simp
  qed
  with b show ?thesis unfolding ranked_def by blast
qed

lemma var_values_selected:
  assumes c: "complete_matrix sites d" and a: "a \<in> set sites" and b: "b \<in> set sites"
  shows "(var_values_of d v (a, b) = Some 1) = ((a, b) \<in> selected sites v)"
    and "a \<noteq> b \<longrightarrow> var_values_of d v (a, b) \<noteq> None"
proof -
  from c a b have p: "d (a, b) \<noteq> None \<longleftrightarrow> a \<noteq> b"
    by (simp add: complete_matrix_def del: not_None_eq)
  show "(var_values_of d v (a, b) = Some 1) = ((a, b) \<in> selected sites v)"
  proof (cases "d (a, b)")
    case None
    with p a b show ?thesis by (simp add: var_values_of_def selected_def)
  next
    case (Some c)
    with p a b show ?thesis by (simp add: var_values_of_def selected_def)
  qed
  show "a \<noteq> b \<longrightarrow> var_values_of d v (a, b) \<noteq> None"
    using p by (cases "d (a, b)") (simp_all add: var_values_of_def)
qed


lemma feasible_decode_loop:
  assumes ds: "distinct sites" and org: "''org'' \<in> set sites"
    and c: "complete_matrix sites d" and f: "feasible sites d v"
    and fuel: "length sites \<le> Suc fuel"
  shows "\<exists>tp. decode_loop fuel (var_values_of d v) (''org'', remove1 ''org'' sites, [''org'']) =
            Some (Inr tp) \<and>
          tp \<noteq> [] \<and> hd tp = ''org'' \<and> distinct tp \<and> set tp = set sites \<and>
          successively (\<lambda>a b. (a, b) \<in> selected sites v) tp \<and>
          (last tp, ''org'') \<in> selected sites v"
proof -
  let ?E = "selected sites v"
  let ?x = "var_values_of d v"
  note pe = feasible_perm [OF ds c f]
  note rk = feasible_ranked [OF c f]
  have keys: "\<forall>a\<in>set sites. \<forall>b\<in>set sites. a \<noteq> b \<longrightarrow> ?x (a, b) \<noteq> None"
    using var_values_selected(2) [OF c] by blast
  have xe: "\<forall>a\<in>set sites. \<forall>b\<in>set sites. (?x (a, b) = Some 1) = ((a, b) \<in> ?E)"
    using var_values_selected(1) [OF c] by blast
  have "\<exists>t. decode_loop fuel ?x (''org'', remove1 ''org'' sites, [''org'']) = Some (Inr t) \<and>
      t \<noteq> [] \<and> hd t = ''org'' \<and> distinct t \<and> set t = set sites \<and>
      successively (\<lambda>a b. (a, b) \<in> ?E) t"
  proof (rule decode_loop_follow [OF pe rk keys xe])
    show "[''org''] \<noteq> []" by simp
    show "hd [''org''] = ''org''" by simp
    show "last [''org''] = ''org''" by simp
    show "distinct [''org'']" by simp
    show "distinct (remove1 ''org'' sites)" using ds by simp
    show "set [''org''] \<union> set (remove1 ''org'' sites) = set sites" using ds org by auto
    show "set [''org''] \<inter> set (remove1 ''org'' sites) = {}" using ds by simp
    show "successively (\<lambda>a b. (a, b) \<in> ?E) [''org'']" by simp
    show "length (remove1 ''org'' sites) \<le> fuel" using fuel org by (simp add: length_remove1)
  qed
  then obtain tp where tp: "decode_loop fuel ?x (''org'', remove1 ''org'' sites, [''org'']) =
      Some (Inr tp)" "tp \<noteq> []" "hd tp = ''org''" "distinct tp" "set tp = set sites"
      "successively (\<lambda>a b. (a, b) \<in> ?E) tp" by blast
  from tp(5) have sub: "set tp \<subseteq> set sites" by simp
  from path_extend [OF pe rk tp(2,3,4) sub tp(6)] obtain k where k: "k \<in> set sites"
    "(last tp, k) \<in> ?E" "k \<in> set tp \<longrightarrow> k = ''org'' \<and> set tp = set sites" by blast
  from k(1,3) tp(5) have "k = ''org''" by simp
  with k(2) have "(last tp, ''org'') \<in> ?E" by simp
  with tp show ?thesis by blast
qed


lemma no_org_infeasible:
  assumes "''org'' \<notin> set sites" and "sites \<noteq> []" and ds: "distinct sites"
    and c: "complete_matrix sites d"
  shows "\<not> feasible sites d v"
proof
  assume f: "feasible sites d v"
  note pe = feasible_perm [OF ds c f]
  note rk = feasible_ranked [OF c f]
  have out: "\<forall>a\<in>set sites. \<exists>j\<in>set sites. (a, j) \<in> selected sites v"
  proof
    fix a assume "a \<in> set sites"
    from perm_edges_out [OF pe this] obtain j where j: "(a, j) \<in> selected sites v" by blast
    from perm_edges_mem [OF pe j] j show "\<exists>j\<in>set sites. (a, j) \<in> selected sites v" by blast
  qed
  have closed: "\<forall>a\<in>set sites. \<forall>b\<in>{}. (a, b) \<in> selected sites v \<longrightarrow> a \<in> {}" by simp
  have org: "\<forall>a\<in>set sites - {}. a \<noteq> ''org''" using assms(1) by auto
  from mtz_escape [OF out closed org rk] assms(2) show False by simp
qed

lemma cycle_edges_nth:
  "(a, b) \<in> set (cycle_edges t) \<longleftrightarrow> (\<exists>n<length t. a = t ! n \<and> b = t ! (Suc n mod length t))"
proof
  assume "(a, b) \<in> set (cycle_edges t)"
  then obtain n where n: "t ! n = a" "rotate1 t ! n = b" "n < length t"
    by (auto simp: cycle_edges_def in_set_zip)
  from n(3) have "rotate1 t ! n = t ! (Suc n mod length t)" by (rule nth_rotate1)
  with n show "\<exists>n<length t. a = t ! n \<and> b = t ! (Suc n mod length t)" by auto
next
  assume "\<exists>n<length t. a = t ! n \<and> b = t ! (Suc n mod length t)"
  then obtain n where n: "n < length t" "a = t ! n" "b = t ! (Suc n mod length t)" by blast
  from n(1) have "rotate1 t ! n = t ! (Suc n mod length t)" by (rule nth_rotate1)
  with n show "(a, b) \<in> set (cycle_edges t)"
    by (auto simp: cycle_edges_def in_set_zip)
qed

lemma zip_fst_unique:
  assumes "distinct ys" and "(a, b) \<in> set (zip xs ys)" and "(a', b) \<in> set (zip xs ys)"
  shows "a = a'"
proof -
  from assms(2) obtain n where n: "xs ! n = a" "ys ! n = b" "n < length ys"
    by (auto simp: in_set_zip)
  from assms(3) obtain m where m: "xs ! m = a'" "ys ! m = b" "m < length ys"
    by (auto simp: in_set_zip)
  from n(2) m(2) have "ys ! n = ys ! m" by simp
  with nth_eq_iff_index_eq [OF assms(1) n(3) m(3)] have "n = m" by simp
  with n(1) m(1) show ?thesis by simp
qed

lemma zip_snd_unique:
  assumes "distinct xs" and "(a, b) \<in> set (zip xs ys)" and "(a, b') \<in> set (zip xs ys)"
  shows "b = b'"
proof -
  from assms(2) obtain n where n: "xs ! n = a" "ys ! n = b" "n < length xs"
    by (auto simp: in_set_zip)
  from assms(3) obtain m where m: "xs ! m = a" "ys ! m = b'" "m < length xs"
    by (auto simp: in_set_zip)
  from n(1) m(1) have "xs ! n = xs ! m" by simp
  with nth_eq_iff_index_eq [OF assms(1) n(3) m(3)] have "n = m" by simp
  with n(2) m(2) show ?thesis by simp
qed

lemma cycle_perm:
  assumes d: "distinct c" and l: "2 \<le> length c"
  shows "perm_edges (set c) (set (cycle_edges c))"
proof -
  have 1: "i \<in> set c \<and> j \<in> set c \<and> i \<noteq> j" if "(i, j) \<in> set (cycle_edges c)" for i j
  proof -
    from that obtain n where n: "n < length c" "i = c ! n" "j = c ! (Suc n mod length c)"
      unfolding cycle_edges_nth by blast
    from l have "0 < length c" by linarith
    then have m: "Suc n mod length c < length c" by (rule mod_less_divisor)
    have "Suc n mod length c \<noteq> n"
    proof (cases "Suc n < length c")
      case True
      then show ?thesis by simp
    next
      case False
      with n(1) have "Suc n = length c" by simp
      with l show ?thesis by auto
    qed
    with d n(1) m have "c ! n \<noteq> c ! (Suc n mod length c)" by (simp add: nth_eq_iff_index_eq)
    with n m show ?thesis by simp
  qed
  have 2: "\<exists>!i. (i, k) \<in> set (cycle_edges c)" if "k \<in> set c" for k
  proof -
    from that have "k \<in> set (rotate1 c)" by simp
    then obtain n where n: "n < length (rotate1 c)" "rotate1 c ! n = k"
      unfolding in_set_conv_nth by blast
    then have "(c ! n, k) \<in> set (cycle_edges c)"
      by (auto simp: cycle_edges_def in_set_zip)
    moreover have "i = i'" if "(i, k) \<in> set (cycle_edges c)" "(i', k) \<in> set (cycle_edges c)" for i i'
      using zip_fst_unique [of "rotate1 c" i k c i'] d that by (simp add: cycle_edges_def)
    ultimately show ?thesis by blast
  qed
  have 3: "\<exists>!j. (k, j) \<in> set (cycle_edges c)" if "k \<in> set c" for k
  proof -
    from that obtain n where n: "n < length c" "c ! n = k"
      unfolding in_set_conv_nth by blast
    then have "(k, rotate1 c ! n) \<in> set (cycle_edges c)"
      by (auto simp: cycle_edges_def in_set_zip)
    moreover have "j = j'" if "(k, j) \<in> set (cycle_edges c)" "(k, j') \<in> set (cycle_edges c)" for j j'
      using zip_snd_unique [of c k j "rotate1 c" j'] d that by (simp add: cycle_edges_def)
    ultimately show ?thesis by blast
  qed
  from 1 2 3 show ?thesis unfolding perm_edges_def by blast
qed

lemma ex1_in_union:
  assumes "(i, k) \<in> E" and u: "\<forall>i'. (i', k) \<in> E \<longrightarrow> i = i'" and n: "\<forall>i'. (i', k) \<notin> F"
  shows "\<exists>!i. (i, k) \<in> E \<union> F"
proof (rule ex1I [of _ i])
  from assms(1) show "(i, k) \<in> E \<union> F" by simp
next
  fix y assume "(y, k) \<in> E \<union> F"
  with n have "(y, k) \<in> E" by blast
  with u have "i = y" by blast
  then show "y = i" by (rule sym)
qed

lemma ex1_out_union:
  assumes "(k, j) \<in> E" and u: "\<forall>j'. (k, j') \<in> E \<longrightarrow> j = j'" and n: "\<forall>j'. (k, j') \<notin> F"
  shows "\<exists>!j. (k, j) \<in> E \<union> F"
proof (rule ex1I [of _ j])
  from assms(1) show "(k, j) \<in> E \<union> F" by simp
next
  fix y assume "(k, y) \<in> E \<union> F"
  with n have "(k, y) \<in> E" by blast
  with u have "j = y" by blast
  then show "y = j" by (rule sym)
qed

lemma perm_union:
  assumes a: "perm_edges A E" and b: "perm_edges B F" and dj: "A \<inter> B = {}"
  shows "perm_edges (A \<union> B) (E \<union> F)"
proof -
  have 1: "i \<in> A \<union> B \<and> j \<in> A \<union> B \<and> i \<noteq> j" if "(i, j) \<in> E \<union> F" for i j
    using that perm_edges_mem [OF a] perm_edges_mem [OF b] by blast
  have 2: "\<exists>!i. (i, k) \<in> E \<union> F" if k: "k \<in> A \<union> B" for k
  proof (cases "k \<in> A")
    case True
    with dj have nF: "\<forall>i. (i, k) \<notin> F" using perm_edges_mem(2) [OF b] by blast
    from perm_edges_in [OF a True] obtain i where "(i, k) \<in> E" "\<forall>i'. (i', k) \<in> E \<longrightarrow> i = i'"
      by blast
    then show ?thesis using nF by (rule ex1_in_union)
  next
    case False
    with k have kB: "k \<in> B" by simp
    from False have nE: "\<forall>i. (i, k) \<notin> E" using perm_edges_mem(2) [OF a] by blast
    from perm_edges_in [OF b kB] obtain i where "(i, k) \<in> F" "\<forall>i'. (i', k) \<in> F \<longrightarrow> i = i'"
      by blast
    then have "\<exists>!i. (i, k) \<in> F \<union> E" using nE by (rule ex1_in_union)
    then show ?thesis by (simp add: Un_commute)
  qed
  have 3: "\<exists>!j. (k, j) \<in> E \<union> F" if k: "k \<in> A \<union> B" for k
  proof (cases "k \<in> A")
    case True
    with dj have nF: "\<forall>j. (k, j) \<notin> F" using perm_edges_mem(1) [OF b] by blast
    from perm_edges_out [OF a True] obtain j where "(k, j) \<in> E" "\<forall>j'. (k, j') \<in> E \<longrightarrow> j = j'"
      by blast
    then show ?thesis using nF by (rule ex1_out_union)
  next
    case False
    with k have kB: "k \<in> B" by simp
    from False have nE: "\<forall>j. (k, j) \<notin> E" using perm_edges_mem(1) [OF a] by blast
    from perm_edges_out [OF b kB] obtain j where "(k, j) \<in> F" "\<forall>j'. (k, j') \<in> F \<longrightarrow> j = j'"
      by blast
    then have "\<exists>!j. (k, j) \<in> F \<union> E" using nE by (rule ex1_out_union)
    then show ?thesis by (simp add: Un_commute)
  qed
  from 1 2 3 show ?thesis unfolding perm_edges_def by blast
qed

lemma perm_edges_subset_eq:
  assumes e: "perm_edges S E" and f: "perm_edges S F" and sub: "F \<subseteq> E"
  shows "E = F"
proof -
  have "(a, b) \<in> F" if ab: "(a, b) \<in> E" for a b
  proof -
    from perm_edges_mem(1) [OF e ab] have aS: "a \<in> S" .
    from perm_edges_out [OF f aS] obtain b' where b': "(a, b') \<in> F" by blast
    with sub have "(a, b') \<in> E" by blast
    moreover from perm_edges_out [OF e aS] obtain j where "\<forall>j'. (a, j') \<in> E \<longrightarrow> j = j'" by blast
    ultimately have "b = b'" using ab by metis
    with b' show ?thesis by simp
  qed
  with sub show ?thesis by auto
qed

lemma index_of_nth: "distinct t \<Longrightarrow> n < length t \<Longrightarrow> index_of t (t ! n) = n"
proof (induction t arbitrary: n)
  case Nil
  then show ?case by simp
next
  case (Cons a t)
  show ?case
  proof (cases n)
    case 0
    then show ?thesis by simp
  next
    case (Suc m)
    with Cons.prems have "m < length t" "distinct t" "t ! m \<noteq> a" by auto
    with Cons.IH [of m] Suc show ?thesis by auto
  qed
qed

lemma index_of_less: "a \<in> set t \<Longrightarrow> index_of t a < length t"
  by (induction t) auto

lemma is_tour_length:
  assumes "distinct sites" and "is_tour sites t"
  shows "length t = length sites"
proof -
  from assms(2) have "distinct t" "set t = set sites" by (simp_all add: is_tour_def)
  then have "card (set sites) = length t" using distinct_card [of t] by simp
  with distinct_card [OF assms(1)] show ?thesis by simp
qed

lemma tour_feasible:
  assumes ds: "distinct sites" and c: "complete_matrix sites d" and t: "is_tour sites t"
    and l: "2 \<le> length sites" and en: "encodes sites v (set (cycle_edges t))"
    and rk: "\<forall>i\<in>set sites. v (U i) = int (index_of t i)"
  shows "feasible sites d v"
proof -
  from t have t': "t \<noteq> []" "hd t = ''org''" "distinct t" "set t = set sites"
    by (simp_all add: is_tour_def)
  note len = is_tour_length [OF ds t]
  from cycle_perm [OF t'(3)] l len t'(4)
  have pe: "perm_edges (set sites) (set (cycle_edges t))" by simp
  note df = perm_degree [OF ds c pe en]
  have ub: "0 \<le> v (U i) \<and> v (U i) \<le> int (length sites) - 1" if "i \<in> set sites" for i
  proof -
    from that t'(4) have "index_of t i < length t" by (simp add: index_of_less)
    with rk that len show ?thesis by simp
  qed
  have mtz: "v (U i) - v (U j) \<le> int (length sites) * (1 - v (X i j)) - 1"
    if ij: "i \<in> set sites" "j \<in> set sites" "i \<noteq> j" "j \<noteq> ''org''" for i j
  proof (cases "(i, j) \<in> set (cycle_edges t)")
    case True
    then obtain n where n: "n < length t" "i = t ! n" "j = t ! (Suc n mod length t)"
      unfolding cycle_edges_nth by blast
    have "Suc n < length t"
    proof (rule ccontr)
      assume "\<not> Suc n < length t"
      with n(1) have "Suc n = length t" by simp
      then have "Suc n mod length t = 0" by simp
      with n(3) t'(1,2) have "j = ''org''" by (simp add: hd_conv_nth)
      with ij(4) show False by simp
    qed
    with n(3) have j: "j = t ! Suc n" by simp
    from index_of_nth [OF t'(3) n(1)] n(2) have "index_of t i = n" by simp
    moreover from index_of_nth [OF t'(3) \<open>Suc n < length t\<close>] j have "index_of t j = Suc n" by simp
    moreover from en ij True have "v (X i j) = 1" by (simp add: encodes_def)
    ultimately show ?thesis using rk ij(1,2) by simp
  next
    case False
    with en ij have "v (X i j) = 0" by (simp add: encodes_def)
    with ub [OF ij(1)] ub [OF ij(2)] show ?thesis by simp
  qed
  from df ub mtz show ?thesis unfolding feasible_iff by blast
qed

lemma feasible_encodes_selected:
  assumes c: "complete_matrix sites d" and f: "degree_feasible sites d v"
  shows "encodes sites v (selected sites v)"
proof -
  from f have b: "\<forall>i\<in>set sites. \<forall>j\<in>set sites. d (i, j) \<noteq> None \<longrightarrow> 0 \<le> v (X i j) \<and> v (X i j) \<le> 1"
    by (simp add: degree_feasible_iff del: not_None_eq)
  have "v (X i j) = (if (i, j) \<in> selected sites v then 1 else 0)"
    if ij: "i \<in> set sites" "j \<in> set sites" "i \<noteq> j" for i j
  proof -
    from c ij have "d (i, j) \<noteq> None" by (simp add: complete_matrix_def del: not_None_eq)
    with b ij have "0 \<le> v (X i j) \<and> v (X i j) \<le> 1" by blast
    moreover from ij have "(i, j) \<in> selected sites v \<longleftrightarrow> v (X i j) = 1"
      by (simp add: selected_def)
    ultimately show ?thesis by auto
  qed
  then show ?thesis by (simp add: encodes_def)
qed

lemma path_cycle_edges:
  assumes p: "tp \<noteq> []" "successively (\<lambda>a b. (a, b) \<in> E) tp" "(last tp, hd tp) \<in> E"
  shows "set (cycle_edges tp) \<subseteq> E"
proof
  fix e assume e: "e \<in> set (cycle_edges tp)"
  obtain a b where ab: "e = (a, b)" by (cases e)
  with e have "(a, b) \<in> set (cycle_edges tp)" by simp
  then obtain n where n: "n < length tp" "a = tp ! n" "b = tp ! (Suc n mod length tp)"
    unfolding cycle_edges_nth by blast
  show "e \<in> E"
  proof (cases "Suc n < length tp")
    case True
    from successively_nth [OF p(2) True] n True ab show ?thesis by simp
  next
    case False
    with n(1) have s: "Suc n = length tp" by simp
    then have "Suc n mod length tp = 0" by simp
    with n(3) p(1) have "b = hd tp" by (simp add: hd_conv_nth)
    moreover from s have "n = length tp - 1" by simp
    with n(2) p(1) have "a = last tp" by (simp add: last_conv_nth)
    ultimately show ?thesis using p(3) ab by simp
  qed
qed

lemma feasible_tour:
  assumes ds: "distinct sites" and org: "''org'' \<in> set sites"
    and c: "complete_matrix sites d" and f: "feasible sites d v"
  shows "\<exists>t. is_tour sites t \<and> encodes sites v (set (cycle_edges t))"
proof -
  let ?E = "selected sites v"
  from feasible_decode_loop [OF ds org c f, of "length sites"] obtain tp where tp:
    "tp \<noteq> []" "hd tp = ''org''" "distinct tp" "set tp = set sites"
    "successively (\<lambda>a b. (a, b) \<in> ?E) tp" "(last tp, ''org'') \<in> ?E" by auto
  note pe = feasible_perm [OF ds c f]
  from perm_edges_mem(3) [OF pe tp(6)] tp(2) have ne: "last tp \<noteq> hd tp" by simp
  have l2: "2 \<le> length tp"
  proof (rule ccontr)
    assume "\<not> 2 \<le> length tp"
    moreover from tp(1) obtain a r where ar: "tp = a # r" by (cases tp) auto
    ultimately have "r = []" by (cases r) auto
    with ar ne show False by simp
  qed
  from cycle_perm [OF tp(3) l2] tp(4)
  have pc: "perm_edges (set sites) (set (cycle_edges tp))" by simp
  from tp(2,6) have "(last tp, hd tp) \<in> ?E" by simp
  from path_cycle_edges [OF tp(1,5) this] have sub: "set (cycle_edges tp) \<subseteq> ?E" .
  from perm_edges_subset_eq [OF pe pc sub] have eq: "?E = set (cycle_edges tp)" .
  from f have "degree_feasible sites d v" by (simp add: feasible_iff)
  from feasible_encodes_selected [OF c this] eq
  have "encodes sites v (set (cycle_edges tp))" by simp
  moreover from tp have "is_tour sites tp" by (simp add: is_tour_def)
  ultimately show ?thesis by blast
qed

lemma subtour_edges:
  assumes "subtour sites v c'"
  shows "2 \<le> length c'" and "distinct c'" and "set c' \<subset> set sites"
    and "perm_edges (set c') (set (cycle_edges c'))"
    and "set (cycle_edges c') \<subseteq> selected sites v"
proof -
  from assms show l: "2 \<le> length c'" and dc: "distinct c'" and ss: "set c' \<subset> set sites"
    by (simp_all add: subtour_def)
  from cycle_perm [OF dc l] show pc: "perm_edges (set c') (set (cycle_edges c'))" .
  show "set (cycle_edges c') \<subseteq> selected sites v"
  proof
    fix e assume e: "e \<in> set (cycle_edges c')"
    obtain i j where ij: "e = (i, j)" by (cases e)
    with e have m: "(i, j) \<in> set (cycle_edges c')" by simp
    from assms m have "v (X i j) = 1" by (auto simp: subtour_def)
    moreover from perm_edges_mem [OF pc m] ss have "i \<in> set sites" "j \<in> set sites" "i \<noteq> j"
      by auto
    ultimately show "e \<in> selected sites v" using ij by (simp add: selected_def)
  qed
qed

lemma perm_in_unique:
  assumes "perm_edges S E" and "(a, b) \<in> E" and "(a', b) \<in> E"
  shows "a = a'"
proof -
  from perm_edges_mem(2) [OF assms(1,2)] have "b \<in> S" .
  from perm_edges_in [OF assms(1) this] obtain i where "\<forall>i'. (i', b) \<in> E \<longrightarrow> i = i'" by blast
  with assms(2,3) have "i = a" "i = a'" by blast+
  then show ?thesis by simp
qed

lemma perm_out_unique:
  assumes "perm_edges S E" and "(a, b) \<in> E" and "(a, b') \<in> E"
  shows "b = b'"
proof -
  from perm_edges_mem(1) [OF assms(1,2)] have "a \<in> S" .
  from perm_edges_out [OF assms(1) this] obtain j where "\<forall>j'. (a, j') \<in> E \<longrightarrow> j = j'" by blast
  with assms(2,3) have "j = b" "j = b'" by blast+
  then show ?thesis by simp
qed

lemma perm_out_ex:
  assumes "perm_edges S E" and "a \<in> S"
  shows "\<exists>j\<in>S. (a, j) \<in> E"
proof -
  from perm_edges_out [OF assms] obtain j where j: "(a, j) \<in> E" by blast
  from perm_edges_mem(2) [OF assms(1) j] j show ?thesis by blast
qed

lemma feasible_no_subtour:
  assumes ds: "distinct sites" and c: "complete_matrix sites d" and f: "feasible sites d v"
  shows "\<not> subtour sites v c'"
proof
  assume st: "subtour sites v c'"
  let ?E = "selected sites v"
  note l = subtour_edges(1) [OF st] and ss = subtour_edges(3) [OF st]
    and pc = subtour_edges(4) [OF st] and sub = subtour_edges(5) [OF st]
  note pe = feasible_perm [OF ds c f]
  note rk = feasible_ranked [OF c f]
  have out: "\<forall>a\<in>set sites. \<exists>j\<in>set sites. (a, j) \<in> ?E"
    using perm_out_ex [OF pe] by blast
  show False
  proof (cases "''org'' \<in> set c'")
    case True
    have closed: "\<forall>a\<in>set sites. \<forall>b\<in>set c'. (a, b) \<in> ?E \<longrightarrow> a \<in> set c'"
    proof (intro ballI impI)
      fix a b assume b: "b \<in> set c'" and ab: "(a, b) \<in> ?E"
      from perm_edges_in [OF pc b] obtain p where p: "(p, b) \<in> set (cycle_edges c')" by blast
      with sub have "(p, b) \<in> ?E" by blast
      from perm_in_unique [OF pe ab this] perm_edges_mem(1) [OF pc p] show "a \<in> set c'" by simp
    qed
    have org: "\<forall>a\<in>set sites - set c'. a \<noteq> ''org''" using True by blast
    have "set sites \<subseteq> set c'" by (rule mtz_escape [OF out closed org rk])
    with ss show False by blast
  next
    case False
    have closed: "\<forall>a\<in>set sites. \<forall>b\<in>set sites - set c'. (a, b) \<in> ?E \<longrightarrow> a \<in> set sites - set c'"
    proof (intro ballI impI)
      fix a b assume a: "a \<in> set sites" and b: "b \<in> set sites - set c'" and ab: "(a, b) \<in> ?E"
      have "a \<notin> set c'"
      proof
        assume "a \<in> set c'"
        from perm_edges_out [OF pc this] obtain q where q: "(a, q) \<in> set (cycle_edges c')" by blast
        with sub have "(a, q) \<in> ?E" by blast
        from perm_out_unique [OF pe ab this] perm_edges_mem(2) [OF pc q] b show False by simp
      qed
      with a show "a \<in> set sites - set c'" by simp
    qed
    have org: "\<forall>a\<in>set sites - (set sites - set c'). a \<noteq> ''org''" using False by blast
    have s: "set sites \<subseteq> set sites - set c'"
      by (rule mtz_escape [OF out closed org rk])
    from ss have sb: "set c' \<subseteq> set sites" by (rule psubset_imp_subset)
    have "x \<notin> set c'" for x
    proof
      assume x: "x \<in> set c'"
      with sb have "x \<in> set sites" by (rule subsetD)
      with s have "x \<in> set sites - set c'" by (rule subsetD)
      with x show False by simp
    qed
    then have "c' = []" by (cases c') auto
    with l show False by simp
  qed
qed

lemma subtour_needs_four:
  assumes ds: "distinct sites" and c: "complete_matrix sites d"
    and df: "degree_feasible sites d v" and st: "subtour sites v c'"
  shows "4 \<le> length sites"
proof -
  let ?E = "selected sites v"
  note l = subtour_edges(1) [OF st] and dc = subtour_edges(2) [OF st]
    and ss = subtour_edges(3) [OF st]
    and pc = subtour_edges(4) [OF st] and sub = subtour_edges(5) [OF st]
  note pe = degree_perm [OF ds c df]
  from ss obtain r where r: "r \<in> set sites" "r \<notin> set c'" by blast
  from perm_out_ex [OF pe r(1)] obtain j where j: "j \<in> set sites" "(r, j) \<in> ?E" by blast
  from perm_edges_mem(3) [OF pe j(2)] have rj: "r \<noteq> j" .
  have jc: "j \<notin> set c'"
  proof
    assume "j \<in> set c'"
    from perm_edges_in [OF pc this] obtain p where p: "(p, j) \<in> set (cycle_edges c')" by blast
    with sub have "(p, j) \<in> ?E" by blast
    from perm_in_unique [OF pe j(2) this] perm_edges_mem(1) [OF pc p] r(2) show False by simp
  qed
  have "set c' \<union> {r, j} \<subseteq> set sites" using ss r(1) j(1) by blast
  then have "card (set c' \<union> {r, j}) \<le> card (set sites)" by (simp add: card_mono)
  moreover have "card (set c' \<union> {r, j}) = card (set c') + card {r, j}"
    by (rule card_Un_disjoint) (use r(2) jc in auto)
  moreover have "card {r, j} = 2" using rj by simp
  moreover have "card (set c') = length c'" using dc by (simp add: distinct_card)
  moreover have "card (set sites) = length sites" using ds by (simp add: distinct_card)
  ultimately show ?thesis using l by simp
qed

lemma degree_only_subtour:
  assumes ds: "distinct sites" and c: "complete_matrix sites d" and l: "4 \<le> length sites"
  shows "\<exists>w c'. degree_feasible sites d w \<and> subtour sites w c'"
proof -
  let ?c1 = "take 2 sites" and ?c2 = "drop 2 sites"
  let ?E = "set (cycle_edges ?c1) \<union> set (cycle_edges ?c2)"
  let ?w = "\<lambda>x. case x of X i j \<Rightarrow> (if (i, j) \<in> ?E then 1 else 0) | U i \<Rightarrow> (0::int)"
  from ds have "distinct (?c1 @ ?c2)" by simp
  then have d1: "distinct ?c1" and d2: "distinct ?c2" and dj: "set ?c1 \<inter> set ?c2 = {}"
    unfolding distinct_append by blast+
  from l have l1: "2 \<le> length ?c1" and l2: "2 \<le> length ?c2" by simp_all
  have un: "set ?c1 \<union> set ?c2 = set sites"
    using set_append [of ?c1 ?c2] by simp
  from perm_union [OF cycle_perm [OF d1 l1] cycle_perm [OF d2 l2] dj] un
  have pe: "perm_edges (set sites) ?E" by simp
  have en: "encodes sites ?w ?E" by (simp add: encodes_def)
  note df = perm_degree [OF ds c pe en]
  from l2 obtain b where b: "b \<in> set ?c2" by (cases ?c2) auto
  with dj have "b \<notin> set ?c1" by blast
  with b un have "set ?c1 \<subset> set sites" by blast
  with l1 d1 have "subtour sites ?w ?c1" by (simp add: subtour_def)
  with df show ?thesis by blast
qed

lemma encodes_tour_assignment: "encodes sites (tour_assignment t) (set (cycle_edges t))"
  by (simp add: encodes_def tour_assignment_def)

lemma encodes_with_order: "encodes sites (with_order v u) E = encodes sites v E"
  by (simp add: encodes_def with_order_def)

section \<open>Decoding a feasible assignment\<close>




section \<open>Inputs that the notebook does not check\<close>

text \<open>
  C5. Building the model checks nothing about the distance matrix and raises
  nothing. \<open>x\<close> has a variable exactly for the pairs that have a distance; the variable of
  a pair without a distance occurs in no constraint; each degree constraint sums the
  variables of the pairs that have a distance; and a subtour-elimination constraint is
  generated exactly for the pairs of different sites other than \<open>'org'\<close> that have a
  distance.
\<close>

theorem missing_pairs_left_out:
  "(model_x (build_model sites distances) (i, j) = None \<longleftrightarrow> distances (i, j) = None) \<and>
   (distances (i, j) = None \<longrightarrow>
      (\<forall>c\<in>set (model_constraints (build_model sites distances)). X i j \<notin> constraint_vars c)) \<and>
   (sat v (inbound sites (model_x (build_model sites distances)) k) \<longleftrightarrow>
      sum_list (map (\<lambda>i. v (X i k)) (filter (\<lambda>i. distances (i, k) \<noteq> None) sites)) = 1) \<and>
   (sat v (outbound sites (model_x (build_model sites distances)) k) \<longleftrightarrow>
      sum_list (map (\<lambda>i. v (X k i)) (filter (\<lambda>i. distances (k, i) \<noteq> None) sites)) = 1) \<and>
   (mtz (int (length sites)) i j \<in> set (model_constraints (build_model sites distances)) \<longleftrightarrow>
      i \<in> set sites \<and> j \<in> set sites \<and> i \<noteq> j \<and> i \<noteq> ''org'' \<and> j \<noteq> ''org'' \<and>
      distances (i, j) \<noteq> None)"
proof -
  have 1: "model_x (build_model sites distances) (i, j) = None \<longleftrightarrow> distances (i, j) = None"
    by (simp add: x_vars_None)
  have 2: "distances (i, j) = None \<longrightarrow>
      (\<forall>c\<in>set (model_constraints (build_model sites distances)). X i j \<notin> constraint_vars c)"
    using model_constraint_vars by blast
  have 3: "sat v (inbound sites (model_x (build_model sites distances)) k) \<longleftrightarrow>
      sum_list (map (\<lambda>i. v (X i k)) (filter (\<lambda>i. distances (i, k) \<noteq> None) sites)) = 1"
    by (simp add: sat_inbound x_vars_None del: not_None_eq)
  have 4: "sat v (outbound sites (model_x (build_model sites distances)) k) \<longleftrightarrow>
      sum_list (map (\<lambda>i. v (X k i)) (filter (\<lambda>i. distances (k, i) \<noteq> None) sites)) = 1"
    by (simp add: sat_outbound x_vars_None del: not_None_eq)
  note 5 = mtz_in_model [of sites i j distances]
  from 1 2 3 4 5 show ?thesis by (intro conjI)
qed

theorem missing_pairs_left_out_witness:
  "dist3_gap (''A'', ''B'') = None \<and>
   inbound sites3 (model_x (build_model sites3 dist3_gap)) ''B'' \<in>
     set (model_constraints (build_model sites3 dist3_gap)) \<and>
   X ''A'' ''B'' \<notin> constraint_vars (inbound sites3 (model_x (build_model sites3 dist3_gap)) ''B'') \<and>
   model_x (build_model sites3 dist3_gap) (''A'', ''B'') = None \<and>
   mtz (int (length sites3)) ''A'' ''B'' \<notin> set (model_constraints (build_model sites3 dist3_gap))"
proof -
  have g: "dist3_gap (''A'', ''B'') = None" by (simp add: dist3_gap_def)
  have m: "inbound sites3 (model_x (build_model sites3 dist3_gap)) ''B'' \<in>
     set (model_constraints (build_model sites3 dist3_gap))"
    by (simp add: model_constraints_build set_degree_constraints sites3_def)
  note t = missing_pairs_left_out [of sites3 dist3_gap "''A''" "''B''"]
  from t g m have 1: "X ''A'' ''B'' \<notin>
      constraint_vars (inbound sites3 (model_x (build_model sites3 dist3_gap)) ''B'')"
    by blast
  from t g have 2: "model_x (build_model sites3 dist3_gap) (''A'', ''B'') = None" by blast
  from t g have 3: "mtz (int (length sites3)) ''A'' ''B'' \<notin>
      set (model_constraints (build_model sites3 dist3_gap))" by blast
  from g m 1 2 3 show ?thesis by (intro conjI)
qed

text \<open>
  Three sites without a distance from \<open>A\<close> to \<open>B\<close>: the model is built, its constraints
  leave \<open>x[A,B]\<close> out, the tour \<open>org, B, A\<close> is feasible and is decoded.
\<close>

theorem missing_distance_counterexample:
  "dist3_gap (''A'', ''B'') = None \<and>
   model_x (build_model sites3 dist3_gap) (''A'', ''B'') = None \<and>
   inbound sites3 (model_x (build_model sites3 dist3_gap)) ''B'' =
     ConstraintEQ (lpSum [aff_var (X ''org'' ''B'')]) (aff_const 1) \<and>
   outbound sites3 (model_x (build_model sites3 dist3_gap)) ''A'' =
     ConstraintEQ (lpSum [aff_var (X ''A'' ''org'')]) (aff_const 1) \<and>
   length (model_constraints (build_model sites3 dist3_gap)) = 7 \<and>
   feasible sites3 dist3_gap (tour_assignment [''org'', ''B'', ''A'']) \<and>
   decode 2 sites3 (var_values_of dist3_gap (tour_assignment [''org'', ''B'', ''A''])) dist3_gap =
     Some (Inr ([''org'', ''B'', ''A'', ''org''], 30))"
proof -
  have 1: "dist3_gap (''A'', ''B'') = None" by (simp add: dist3_gap_def)
  have 2: "model_x (build_model sites3 dist3_gap) (''A'', ''B'') = None"
    by (simp add: x_vars_None dist3_gap_def)
  have 3: "inbound sites3 (model_x (build_model sites3 dist3_gap)) ''B'' =
     ConstraintEQ (lpSum [aff_var (X ''org'' ''B'')]) (aff_const 1)"
    by (simp add: model_defs example_defs dist3_gap_def)
  have 4: "outbound sites3 (model_x (build_model sites3 dist3_gap)) ''A'' =
     ConstraintEQ (lpSum [aff_var (X ''A'' ''org'')]) (aff_const 1)"
    by (simp add: model_defs example_defs dist3_gap_def)
  have 5: "length (model_constraints (build_model sites3 dist3_gap)) = 7"
    by (simp add: model_defs example_defs dist3_gap_def)
  have 6: "feasible sites3 dist3_gap (tour_assignment [''org'', ''B'', ''A''])"
    by (simp add: model_defs example_defs dist3_gap_def)
  have 7: "decode 2 sites3 (var_values_of dist3_gap (tour_assignment [''org'', ''B'', ''A''])) dist3_gap =
     Some (Inr ([''org'', ''B'', ''A'', ''org''], 30))"
    by (simp add: example_defs decoder_simps dist3_gap_def)
  from 1 2 3 4 5 6 7 show ?thesis by (intro conjI)
qed

text \<open>
  C8. Building the model checks neither the number of sites nor the origin. For
  fewer than 3 distinct sites with \<open>'org'\<close> among them the model consists of the degree
  constraints alone. Without \<open>'org'\<close> among the sites, a subtour-elimination constraint
  is generated for every ordered pair of different sites that has a distance; the tour cell
  then raises \<open>ValueError\<close>, and when the sites are distinct, at least one, and the matrix
  is complete, no assignment is feasible. In every case the model has two degree
  constraints for each listed site, followed by the subtour-elimination constraints.
\<close>

theorem construction_without_validation:
  "(length sites < 3 \<and> distinct sites \<and> ''org'' \<in> set sites \<longrightarrow>
      model_constraints (build_model sites distances) =
        degree_constraints sites (model_x (build_model sites distances))) \<and>
   (''org'' \<notin> set sites \<longrightarrow>
      (\<forall>i j. mtz (int (length sites)) i j \<in> set (model_constraints (build_model sites distances))
          \<longleftrightarrow> i \<in> set sites \<and> j \<in> set sites \<and> i \<noteq> j \<and> distances (i, j) \<noteq> None) \<and>
      reconstruct fuel sites x = Some (Inl ValueError) \<and>
      (sites \<noteq> [] \<and> distinct sites \<and> complete_matrix sites distances \<longrightarrow>
         \<not> feasible sites distances v)) \<and>
   length (model_constraints (build_model sites distances)) =
     2 * length sites + length (subtour_constraints sites (model_x (build_model sites distances)))"
proof -
  have 1: "length sites < 3 \<and> distinct sites \<and> ''org'' \<in> set sites \<longrightarrow>
      model_constraints (build_model sites distances) =
        degree_constraints sites (model_x (build_model sites distances))"
    by (simp add: model_constraints_build subtour_empty_small)
  have 2: "\<forall>i j. mtz (int (length sites)) i j \<in> set (model_constraints (build_model sites distances))
          \<longleftrightarrow> i \<in> set sites \<and> j \<in> set sites \<and> i \<noteq> j \<and> distances (i, j) \<noteq> None"
    if "''org'' \<notin> set sites"
    using that unfolding mtz_in_model by blast
  have 3: "reconstruct fuel sites x = Some (Inl ValueError)" if "''org'' \<notin> set sites"
    using that by (simp add: reconstruct_def reconstruct_from_def initial_state_eq)
  have 4: "sites \<noteq> [] \<and> distinct sites \<and> complete_matrix sites distances \<longrightarrow>
         \<not> feasible sites distances v" if "''org'' \<notin> set sites"
    using that no_org_infeasible by blast
  have 5: "length (model_constraints (build_model sites distances)) =
     2 * length sites + length (subtour_constraints sites (model_x (build_model sites distances)))"
    by (simp add: model_constraints_build length_degree_constraints)
  have s: "''org'' \<notin> set sites \<longrightarrow>
      (\<forall>i j. mtz (int (length sites)) i j \<in> set (model_constraints (build_model sites distances))
          \<longleftrightarrow> i \<in> set sites \<and> j \<in> set sites \<and> i \<noteq> j \<and> distances (i, j) \<noteq> None) \<and>
      reconstruct fuel sites x = Some (Inl ValueError) \<and>
      (sites \<noteq> [] \<and> distinct sites \<and> complete_matrix sites distances \<longrightarrow>
         \<not> feasible sites distances v)"
  proof (intro impI conjI)
    assume n: "''org'' \<notin> set sites"
    show "\<forall>i j. mtz (int (length sites)) i j \<in> set (model_constraints (build_model sites distances))
          \<longleftrightarrow> i \<in> set sites \<and> j \<in> set sites \<and> i \<noteq> j \<and> distances (i, j) \<noteq> None"
      by (rule 2 [OF n])
    show "reconstruct fuel sites x = Some (Inl ValueError)" by (rule 3 [OF n])
    assume "sites \<noteq> [] \<and> distinct sites \<and> complete_matrix sites distances"
    with 4 [OF n] show "\<not> feasible sites distances v" by (rule mp)
  qed
  from 1 s 5 show ?thesis by (intro conjI)
qed

theorem construction_without_validation_witness:
  "length sites2 < 3 \<and> distinct sites2 \<and> ''org'' \<in> set sites2 \<and>
   model_constraints (build_model sites2 dist2) =
     degree_constraints sites2 (model_x (build_model sites2 dist2)) \<and>
   ''org'' \<notin> set sites_abc \<and>
   reconstruct 3 sites_abc values3 = Some (Inl ValueError) \<and>
   sites_abc \<noteq> [] \<and> distinct sites_abc \<and> complete_matrix sites_abc dist_abc \<and>
   \<not> feasible sites_abc dist_abc (tour_assignment sites_abc)"
proof -
  have a: "length sites2 < 3 \<and> distinct sites2 \<and> ''org'' \<in> set sites2"
    by (simp add: sites2_def)
  have b: "''org'' \<notin> set sites_abc" "sites_abc \<noteq> [] \<and> distinct sites_abc"
    by (simp_all add: sites_abc_def)
  have c: "complete_matrix sites_abc dist_abc" by (simp add: dist_abc_def complete_matrix_make)
  from a construction_without_validation [of sites2 dist2]
  have 1: "model_constraints (build_model sites2 dist2) =
     degree_constraints sites2 (model_x (build_model sites2 dist2))" by blast
  from b c construction_without_validation [of sites_abc dist_abc 3 values3 "tour_assignment sites_abc"]
  have 2: "reconstruct 3 sites_abc values3 = Some (Inl ValueError) \<and>
      \<not> feasible sites_abc dist_abc (tour_assignment sites_abc)" by blast
  from a b c 1 2 show ?thesis by (intro conjI) simp_all
qed

text \<open>
  Two sites: the model is built, the tour \<open>org, A\<close> is feasible and is decoded. Three sites
  without \<open>'org'\<close>: the model is built, with 12 constraints.
\<close>

theorem construction_error_counterexample:
  "length sites2 < 3 \<and>
   feasible sites2 dist2 (tour_assignment [''org'', ''A'']) \<and>
   decode 1 sites2 (var_values_of dist2 (tour_assignment [''org'', ''A''])) dist2 =
     Some (Inr ([''org'', ''A'', ''org''], 20)) \<and>
   ''org'' \<notin> set sites_abc \<and>
   length (model_constraints (build_model sites_abc dist_abc)) = 12"
proof -
  have 1: "length sites2 < 3" by (simp add: sites2_def)
  have 2: "feasible sites2 dist2 (tour_assignment [''org'', ''A''])"
    by (simp add: model_defs example_defs dist2_def sites2_def)
  have 3: "decode 1 sites2 (var_values_of dist2 (tour_assignment [''org'', ''A''])) dist2 =
     Some (Inr ([''org'', ''A'', ''org''], 20))"
    by (simp add: example_defs decoder_simps dist2_def sites2_def)
  have 4: "''org'' \<notin> set sites_abc" by (simp add: sites_abc_def)
  have 5: "length (model_constraints (build_model sites_abc dist_abc)) = 12"
    by (simp add: model_defs example_defs dist_abc_def sites_abc_def)
  from 1 2 3 4 5 show ?thesis by (intro conjI)
qed

section \<open>The feasible region of the model\<close>

text \<open>
  C1. For distinct sites that include \<open>'org'\<close>, at least 3 of them, and a
  complete distance matrix:
  \<^item> the values of \<open>x\<close> that some values of \<open>u\<close> extend to a feasible assignment are
    exactly those that are 1 on the edges of one cycle through all the sites from
    \<open>'org'\<close> and 0 on the other pairs;
  \<^item> the degree constraints alone admit an assignment with a subtour exactly when there
    are at least 4 sites;
  \<^item> no feasible assignment has a subtour;
  \<^item> the assignment of every such cycle, with the ranks of the sites as \<open>u\<close>, is feasible.
\<close>

theorem mtz_feasible_region:
  assumes "distinct sites" and "''org'' \<in> set sites" and "3 \<le> length sites"
    and "complete_matrix sites distances"
  shows "((\<exists>u. feasible sites distances (with_order v u)) \<longleftrightarrow>
            (\<exists>t. is_tour sites t \<and> encodes sites v (set (cycle_edges t)))) \<and>
         ((\<exists>w c. degree_feasible sites distances w \<and> subtour sites w c) \<longleftrightarrow> 4 \<le> length sites) \<and>
         (feasible sites distances v \<longrightarrow> \<not> (\<exists>c. subtour sites v c)) \<and>
         (\<forall>t. is_tour sites t \<longrightarrow> feasible sites distances (tour_assignment t))"
proof -
  from assms(3) have l2: "2 \<le> length sites" by simp
  have 1: "(\<exists>u. feasible sites distances (with_order v u)) \<longleftrightarrow>
            (\<exists>t. is_tour sites t \<and> encodes sites v (set (cycle_edges t)))"
  proof
    assume "\<exists>u. feasible sites distances (with_order v u)"
    then obtain u where "feasible sites distances (with_order v u)" by blast
    from feasible_tour [OF assms(1,2,4) this]
    show "\<exists>t. is_tour sites t \<and> encodes sites v (set (cycle_edges t))"
      by (simp add: encodes_with_order)
  next
    assume "\<exists>t. is_tour sites t \<and> encodes sites v (set (cycle_edges t))"
    then obtain t where t: "is_tour sites t" "encodes sites v (set (cycle_edges t))" by blast
    let ?u = "\<lambda>i. int (index_of t i)"
    from t(2) have en: "encodes sites (with_order v ?u) (set (cycle_edges t))"
      by (simp add: encodes_with_order)
    have rk: "\<forall>i\<in>set sites. with_order v ?u (U i) = int (index_of t i)"
      by (simp add: with_order_def)
    from tour_feasible [OF assms(1,4) t(1) l2 en rk]
    show "\<exists>u. feasible sites distances (with_order v u)" by blast
  qed
  have 2: "(\<exists>w c. degree_feasible sites distances w \<and> subtour sites w c) \<longleftrightarrow> 4 \<le> length sites"
    using subtour_needs_four [OF assms(1,4)] degree_only_subtour [OF assms(1,4)] by blast
  have 3: "feasible sites distances v \<longrightarrow> \<not> (\<exists>c. subtour sites v c)"
    using feasible_no_subtour [OF assms(1,4)] by blast
  have 4: "\<forall>t. is_tour sites t \<longrightarrow> feasible sites distances (tour_assignment t)"
  proof (intro allI impI)
    fix t assume t: "is_tour sites t"
    have rk: "\<forall>i\<in>set sites. tour_assignment t (U i) = int (index_of t i)"
      by (simp add: tour_assignment_def)
    from tour_feasible [OF assms(1,4) t l2 encodes_tour_assignment rk]
    show "feasible sites distances (tour_assignment t)" .
  qed
  from 1 2 3 4 show ?thesis by (intro conjI)
qed

theorem mtz_feasible_region_witness:
  "distinct sites4 \<and> ''org'' \<in> set sites4 \<and> 3 \<le> length sites4 \<and> complete_matrix sites4 dist4 \<and>
   4 \<le> length sites4 \<and> is_tour sites4 [''org'', ''B'', ''A'', ''C''] \<and>
   feasible sites4 dist4 (tour_assignment [''org'', ''B'', ''A'', ''C'']) \<and>
   (\<exists>w c. degree_feasible sites4 dist4 w \<and> subtour sites4 w c) \<and>
   \<not> (\<exists>c. subtour sites4 (tour_assignment [''org'', ''B'', ''A'', ''C'']) c) \<and>
   (\<exists>u. feasible sites4 dist4 (with_order (tour_assignment [''org'', ''B'', ''A'', ''C'']) u))"
proof -
  let ?t = "[''org'', ''B'', ''A'', ''C'']"
  have a: "distinct sites4" "''org'' \<in> set sites4" "3 \<le> length sites4" "4 \<le> length sites4"
    by (simp_all add: sites4_def)
  have c: "complete_matrix sites4 dist4" by (simp add: dist4_def complete_matrix_make)
  have t: "is_tour sites4 ?t" by (auto simp: is_tour_def sites4_def)
  note m = mtz_feasible_region [OF a(1,2,3) c, of "tour_assignment ?t"]
  from m t have 1: "feasible sites4 dist4 (tour_assignment ?t)" by blast
  from m a(4) have 2: "\<exists>w c. degree_feasible sites4 dist4 w \<and> subtour sites4 w c" by blast
  from m 1 have 3: "\<not> (\<exists>c. subtour sites4 (tour_assignment ?t) c)" by blast
  have "encodes sites4 (tour_assignment ?t) (set (cycle_edges ?t))"
    by (rule encodes_tour_assignment)
  with t m have 4: "\<exists>u. feasible sites4 dist4 (with_order (tour_assignment ?t) u)" by blast
  from a c t 1 2 3 4 show ?thesis by (intro conjI)
qed

text \<open>
  With 3 sites no assignment that satisfies the degree constraints has a subtour.
\<close>

theorem subtours_at_three_sites_counterexample:
  "distinct sites3 \<and> ''org'' \<in> set sites3 \<and> 3 \<le> length sites3 \<and> complete_matrix sites3 dist3 \<and>
   \<not> (\<exists>w c. degree_feasible sites3 dist3 w \<and> subtour sites3 w c)"
proof -
  have a: "distinct sites3" "''org'' \<in> set sites3" "3 \<le> length sites3"
    by (simp_all add: sites3_def)
  have c: "complete_matrix sites3 dist3" by (simp add: dist3_def complete_matrix_make)
  have n: "\<not> (\<exists>w c. degree_feasible sites3 dist3 w \<and> subtour sites3 w c)"
  proof
    assume "\<exists>w c. degree_feasible sites3 dist3 w \<and> subtour sites3 w c"
    then obtain w c' where "degree_feasible sites3 dist3 w" "subtour sites3 w c'" by blast
    from subtour_needs_four [OF a(1) c this] show False by (simp add: sites3_def)
  qed
  from a c n show ?thesis by (intro conjI)
qed

end
